theory Spec2Isabelle
  imports Complex_Main "HOL-Library.Word"
begin

section \<open>Machine integers of the Go program\<close>

text \<open>
  Go's \<^verbatim>\<open>int64\<close> (and \<^verbatim>\<open>time.Duration\<close>, an \<^verbatim>\<open>int64\<close> of nanoseconds) is modelled as
  \<^typ>\<open>int\<close> with the two's complement wrap-around written out: every sum or difference
  the program computes on such a value goes through \<open>wrap64\<close>. Go's \<^verbatim>\<open>/\<close> on integers
  truncates towards zero (\<open>quo\<close>), where HOL's \<open>div\<close> rounds down.
\<close>

definition wrap64 :: "int \<Rightarrow> int" where
  "wrap64 x = (x + 2 ^ 63) mod 2 ^ 64 - 2 ^ 63"

definition quo :: "int \<Rightarrow> int \<Rightarrow> int" where
  "quo a b = sgn a * sgn b * (\<bar>a\<bar> div \<bar>b\<bar>)"

definition Second :: int where
  "Second = 1000000000"

section \<open>Data model (main.go, lines 21-47)\<close>

type_synonym byte = "8 word"

record ChunkInfo =
  Start :: int
  End :: int
  Index :: int

record DownloadStats =
  BytesDownloaded :: int
  StartTime :: int
  ChunkTimes :: "int list"

record AdaptiveDownloader =
  URL :: string
  Filename :: string
  MaxConnections :: int
  MinConnections :: int
  CurrentConnections :: int
  ChunkSize :: int
  FileSize :: int
  Stats :: DownloadStats

text \<open>
  \<^verbatim>\<open>NewAdaptiveDownloader\<close> (lines 50-63). The clock reading \<^verbatim>\<open>time.Now()\<close> is the
  parameter \<open>now\<close>; \<^verbatim>\<open>FileSize\<close> is Go's zero value.
\<close>

definition NewAdaptiveDownloader :: "string \<Rightarrow> string \<Rightarrow> int \<Rightarrow> AdaptiveDownloader" where
  "NewAdaptiveDownloader url filename now =
     \<lparr> URL = url, Filename = filename,
       MaxConnections = 16, MinConnections = 2, CurrentConnections = 4,
       ChunkSize = 1024 * 1024, FileSize = 0,
       Stats = \<lparr> BytesDownloaded = 0, StartTime = now, ChunkTimes = [] \<rparr> \<rparr>"

section \<open>The adaptive controller (main.go, lines 227-254)\<close>

text \<open>
  \<^verbatim>\<open>recent := ChunkTimes[len-3:]\<close> is \<open>drop (length ts - 3) ts\<close>; the \<^verbatim>\<open>for ... range\<close>
  loop that sums it is a left fold whose every addition wraps; the average is the
  truncating quotient by \<^verbatim>\<open>len(recent)\<close>. The worker count is a Go \<^verbatim>\<open>int\<close>; its
  increment is guarded by \<^verbatim>\<open>< MaxConnections\<close> and its decrement by
  \<^verbatim>\<open>> MinConnections\<close>, so neither can leave the range of the type.
\<close>

definition totalTime :: "int list \<Rightarrow> int" where
  "totalTime recent = foldl (\<lambda>acc t. wrap64 (acc + t)) 0 recent"

definition calculateOptimalConnections :: "AdaptiveDownloader \<Rightarrow> AdaptiveDownloader" where
  "calculateOptimalConnections d =
     (let ts = ChunkTimes (Stats d) in
      if length ts < 3 then d
      else
        let recent = drop (length ts - 3) ts;
            avgTime = quo (totalTime recent) (int (length recent))
        in if avgTime < 2 * Second \<and> CurrentConnections d < MaxConnections d
           then d\<lparr>CurrentConnections := CurrentConnections d + 1\<rparr>
           else if avgTime > 5 * Second \<and> CurrentConnections d > MinConnections d
           then d\<lparr>CurrentConnections := CurrentConnections d - 1\<rparr>
           else d)"

text \<open>
  The claim's words, for comparison with the code: the exact arithmetic mean of the
  three most recent samples, as a rational number of nanoseconds, against the same
  thresholds.
\<close>

definition spec_mean3 :: "int list \<Rightarrow> rat" where
  "spec_mean3 ts = of_int (sum_list (drop (length ts - 3) ts)) / 3"

definition spec_controller_count :: "AdaptiveDownloader \<Rightarrow> int" where
  "spec_controller_count d =
     (let ts = ChunkTimes (Stats d); m = spec_mean3 ts in
      if length ts < 3 then CurrentConnections d
      else if m < of_int (2 * Second) \<and> CurrentConnections d < MaxConnections d
      then CurrentConnections d + 1
      else if m > of_int (5 * Second) \<and> CurrentConnections d > MinConnections d
      then CurrentConnections d - 1
      else CurrentConnections d)"

text \<open>
  A run of the controller over a sequence of duration histories: before each call the
  history is whatever the fetches have made it.
\<close>

fun controller_calls :: "int list list \<Rightarrow> AdaptiveDownloader \<Rightarrow> AdaptiveDownloader" where
  "controller_calls [] d = d"
| "controller_calls (ts # hs) d =
     controller_calls hs
       (calculateOptimalConnections (d\<lparr>Stats := (Stats d)\<lparr>ChunkTimes := ts\<rparr>\<rparr>))"

section \<open>The chunk planner (main.go, lines 291-302)\<close>

text \<open>
  The planning loop of \<^verbatim>\<open>Download\<close>. Its counter \<^verbatim>\<open>i\<close> and the segment end are
  \<^verbatim>\<open>int64\<close>, so \<^verbatim>\<open>i + ChunkSize\<close> wraps; a wrapped counter is below \<^verbatim>\<open>FileSize\<close>
  again and the loop goes on, so the loop is a partial function: \<open>None\<close> is a loop
  that never ends. \<^verbatim>\<open>len(chunks)\<close> is the index of the appended segment.
\<close>

partial_function (option) createChunks ::
  "int \<Rightarrow> int \<Rightarrow> int \<Rightarrow> ChunkInfo list \<Rightarrow> ChunkInfo list option" where
  "createChunks fileSize chunkSize i chunks =
     (if i < fileSize then
        (let e0 = wrap64 (wrap64 (i + chunkSize) - 1);
             e = (if e0 \<ge> fileSize then wrap64 (fileSize - 1) else e0)
         in createChunks fileSize chunkSize (wrap64 (i + chunkSize))
              (chunks @ [\<lparr>Start = i, End = e, Index = int (length chunks)\<rparr>]))
      else Some chunks)"

text \<open>The plan in closed form, used to state what the loop computes.\<close>

definition chunk_at :: "int \<Rightarrow> int \<Rightarrow> nat \<Rightarrow> ChunkInfo" where
  "chunk_at S L j =
     \<lparr>Start = int j * L, End = min (int j * L + L - 1) (S - 1), Index = int j\<rparr>"

definition chunk_count :: "int \<Rightarrow> int \<Rightarrow> nat" where
  "chunk_count S L = nat ((S + L - 1) div L)"

section \<open>Errors, responses and the environment\<close>

text \<open>
  Every error value the program returns or wraps. \<open>StatusError\<close> is
  \<^verbatim>\<open>fmt.Errorf("server returned status: %s", resp.Status)\<close>, \<open>ChunkFailed\<close> is
  \<^verbatim>\<open>fmt.Errorf("chunk %d failed: %v", chunk.Index, err)\<close>, \<open>FileInfoFailed\<close> is
  \<^verbatim>\<open>fmt.Errorf("failed to get file info: %v", err)\<close>; the others come from the
  libraries: the HTTP client, \<^verbatim>\<open>strconv.ParseInt\<close>, the file, the response body.
  \<open>Panic\<close> is a run-time panic.
\<close>

datatype error =
    NetError string
  | StatusError int
  | NumError string
  | FileError string
  | ReadError string
  | ChunkFailed int error
  | FileInfoFailed error
  | Panic string

text \<open>
  A response body is the sequence of results of its \<^verbatim>\<open>Read\<close> calls: \<open>Data bs rest\<close> is a
  call that returns the bytes \<open>bs\<close> and a nil error, \<open>EOF bs\<close> one that returns \<open>bs\<close>
  with \<^verbatim>\<open>io.EOF\<close>, \<open>ReadFail bs e\<close> one that returns \<open>bs\<close> with another error. The
  client's timeout ends every body, so the sequence is finite.
\<close>

datatype body =
    EOF "byte list"
  | ReadFail "byte list" error
  | Data "byte list" body

record Response =
  StatusCode :: int
  Header :: "string \<Rightarrow> string list"
  Body :: body

text \<open>\<^verbatim>\<open>Header.Get\<close>: the first value stored under the key, or the empty string.\<close>

definition Header_Get :: "(string \<Rightarrow> string list) \<Rightarrow> string \<Rightarrow> string" where
  "Header_Get h key = (case h key of [] \<Rightarrow> [] | v # _ \<Rightarrow> v)"

text \<open>
  What \<^verbatim>\<open>file.WriteAt\<close> and \<^verbatim>\<open>file.Write\<close> answer: success, or an error after some
  bytes of the buffer have reached the file.
\<close>

datatype write_result = Written | WriteFailed nat error

text \<open>
  The effects of the program on the network and on the disk, and the channel operations
  of the worker pool, in the order in which they happen.
\<close>

datatype event =
    HeadRequest string
  | GetRequest string
  | RangeRequest string int int
  | CreateFile string
  | TruncateFile int
  | WriteAt int "byte list"
  | WriteSeq "byte list"
  | Dispatched nat ChunkInfo
  | Failed nat ChunkInfo error

text \<open>
  The environment answers every call the program makes to the HTTP client, the file
  system and the clock. The file operations see the history of effects so far (a disk
  fills up); \<open>since\<close> is the reading of \<^verbatim>\<open>time.Since(start)\<close> when the fetch of a
  segment returns.
\<close>

record env =
  http_Head :: "string \<Rightarrow> error + Response"
  http_NewRequest :: "string \<Rightarrow> error option"
  client_Do :: "string \<Rightarrow> int \<Rightarrow> int \<Rightarrow> error + Response"
  client_Get :: "string \<Rightarrow> error + Response"
  os_Create :: "string \<Rightarrow> error option"
  file_Truncate :: "int \<Rightarrow> error option"
  file_WriteAt :: "event list \<Rightarrow> int \<Rightarrow> byte list \<Rightarrow> write_result"
  file_Write :: "event list \<Rightarrow> byte list \<Rightarrow> write_result"
  since :: "ChunkInfo \<Rightarrow> int"

record world =
  dl :: AdaptiveDownloader
  trace :: "event list"

definition emit :: "event \<Rightarrow> world \<Rightarrow> world" where
  "emit ev w = w\<lparr>trace := trace w @ [ev]\<rparr>"

text \<open>\<^verbatim>\<open>d.Stats.BytesDownloaded += int64(n)\<close> (lines 145-147 and 202-204).\<close>

definition add_bytes :: "nat \<Rightarrow> world \<Rightarrow> world" where
  "add_bytes n w =
     w\<lparr>dl := (dl w)\<lparr>Stats := (Stats (dl w))
        \<lparr>BytesDownloaded := wrap64 (BytesDownloaded (Stats (dl w)) + int n)\<rparr>\<rparr>\<rparr>"

text \<open>
  \<^verbatim>\<open>(*os.File).WriteAt\<close> and \<^verbatim>\<open>(*os.File).Write\<close> of Go's library, on a file whose
  offsets are \<^verbatim>\<open>int64\<close> values (\<^verbatim>\<open>off_t\<close>). \<^verbatim>\<open>WriteAt\<close> returns an error before it
  writes anything when the offset is negative. A file is at most \<open>2^63 - 1\<close> bytes long:
  a write that would make it longer returns an error, after at most the bytes that
  still fit. In every other case the disk decides. A sequential write lands at the
  position of the file, which is the number of bytes written to it since
  \<^verbatim>\<open>os.Create\<close> made it empty.
\<close>

definition os_File_WriteAt :: "env \<Rightarrow> event list \<Rightarrow> int \<Rightarrow> byte list \<Rightarrow> write_result" where
  "os_File_WriteAt en h off bs =
     (if off < 0 then WriteFailed 0 (FileError ''negative offset'')
      else if 2 ^ 63 - 1 < off + int (length bs) then
        (case file_WriteAt en h off bs of
           WriteFailed k writeErr \<Rightarrow> WriteFailed (min k (nat (2 ^ 63 - 1 - off))) writeErr
         | Written \<Rightarrow> WriteFailed (nat (2 ^ 63 - 1 - off)) (FileError ''file too large''))
      else file_WriteAt en h off bs)"

definition file_position :: "event list \<Rightarrow> int" where
  "file_position h =
     foldl (\<lambda>pos ev. case ev of CreateFile f \<Rightarrow> 0
                               | WriteSeq bs \<Rightarrow> pos + int (length bs)
                               | _ \<Rightarrow> pos) 0 h"

definition os_File_Write :: "env \<Rightarrow> event list \<Rightarrow> byte list \<Rightarrow> write_result" where
  "os_File_Write en h bs =
     (if 2 ^ 63 - 1 < file_position h + int (length bs) then
        (case file_Write en h bs of
           WriteFailed k writeErr \<Rightarrow>
             WriteFailed (min k (nat (2 ^ 63 - 1 - file_position h))) writeErr
         | Written \<Rightarrow>
             WriteFailed (nat (2 ^ 63 - 1 - file_position h)) (FileError ''file too large''))
      else file_Write en h bs)"

section \<open>The capability probe (main.go, lines 66-96)\<close>

text \<open>
  \<^verbatim>\<open>strconv.ParseInt(s, 10, 64)\<close> of Go's library: an optional sign, then one or more
  decimal digits, the value within the range of \<^verbatim>\<open>int64\<close>; anything else is a
  \<^verbatim>\<open>*NumError\<close>.
\<close>

definition digit :: "char \<Rightarrow> nat option" where
  "digit c = (let n = (of_char c :: nat) in if 48 \<le> n \<and> n \<le> 57 then Some (n - 48) else None)"

fun digits_value :: "string \<Rightarrow> nat \<Rightarrow> nat option" where
  "digits_value [] acc = Some acc"
| "digits_value (c # cs) acc =
     (case digit c of None \<Rightarrow> None | Some v \<Rightarrow> digits_value cs (acc * 10 + v))"

definition ParseInt :: "string \<Rightarrow> error + int" where
  "ParseInt s =
     (case s of
        [] \<Rightarrow> Inl (NumError s)
      | c # rest \<Rightarrow>
          let neg = (c = CHR ''-'');
              ds = (if c = CHR ''+'' \<or> c = CHR ''-'' then rest else s)
          in if ds = [] then Inl (NumError s)
             else (case digits_value ds 0 of
                     None \<Rightarrow> Inl (NumError s)
                   | Some un \<Rightarrow>
                       (if \<not> neg \<and> un \<ge> 2 ^ 63 then Inl (NumError s)
                        else if neg \<and> un > 2 ^ 63 then Inl (NumError s)
                        else Inr (if neg then - int un else int un))))"

text \<open>
  \<^verbatim>\<open>getFileSize\<close>. The pair the Go function returns is \<open>Inr supportsRanges\<close> for a nil
  error and \<open>Inl err\<close> otherwise (the boolean is then \<^verbatim>\<open>false\<close>); the assignment to
  \<^verbatim>\<open>d.FileSize\<close> is the updated downloader.
\<close>

definition getFileSize :: "env \<Rightarrow> world \<Rightarrow> (error + bool) \<times> world" where
  "getFileSize en w =
     (let w1 = emit (HeadRequest (URL (dl w))) w in
      case http_Head en (URL (dl w)) of
        Inl err \<Rightarrow> (Inl err, w1)
      | Inr resp \<Rightarrow>
          (if StatusCode resp \<noteq> 200 then (Inl (StatusError (StatusCode resp)), w1)
           else
             (let contentLength = Header_Get (Header resp) ''Content-Length'' in
              if contentLength = [] then (Inr False, w1\<lparr>dl := (dl w1)\<lparr>FileSize := - 1\<rparr>\<rparr>)
              else (case ParseInt contentLength of
                      Inl err \<Rightarrow> (Inl err, w1)
                    | Inr sz \<Rightarrow>
                        (Inr (Header_Get (Header resp) ''Accept-Ranges'' = ''bytes''),
                         w1\<lparr>dl := (dl w1)\<lparr>FileSize := sz\<rparr>\<rparr>)))))"

section \<open>The segment fetcher (main.go, lines 99-158)\<close>

text \<open>
  The body of the read loop for one \<^verbatim>\<open>Read\<close> result of \<open>n = length bs\<close> bytes
  (lines 136-148): nothing for \<open>n = 0\<close>, else one positioned write, then the byte
  counter. The event records the bytes that reached the file.
\<close>

definition write_buffer :: "env \<Rightarrow> byte list \<Rightarrow> int \<Rightarrow> world \<Rightarrow> error option \<times> world" where
  "write_buffer en bs offset w =
     (if length bs > 0 then
        (case os_File_WriteAt en (trace w) offset bs of
           WriteFailed k writeErr \<Rightarrow> (Some writeErr, emit (WriteAt offset (take k bs)) w)
         | Written \<Rightarrow> (None, add_bytes (length bs) (emit (WriteAt offset bs) w)))
      else (None, w))"

definition advance :: "int \<Rightarrow> byte list \<Rightarrow> int" where
  "advance offset bs = (if length bs > 0 then wrap64 (offset + int (length bs)) else offset)"

fun stream_body :: "env \<Rightarrow> body \<Rightarrow> int \<Rightarrow> world \<Rightarrow> error option \<times> world" where
  "stream_body en (EOF bs) offset w = write_buffer en bs offset w"
| "stream_body en (ReadFail bs err) offset w =
     (case write_buffer en bs offset w of
        (Some writeErr, w') \<Rightarrow> (Some writeErr, w')
      | (None, w') \<Rightarrow> (Some err, w'))"
| "stream_body en (Data bs rest) offset w =
     (case write_buffer en bs offset w of
        (Some writeErr, w') \<Rightarrow> (Some writeErr, w')
      | (None, w') \<Rightarrow> stream_body en rest (advance offset bs) w')"

text \<open>The deferred function of \<^verbatim>\<open>downloadChunk\<close> (lines 101-105).\<close>

definition record_duration :: "int \<Rightarrow> world \<Rightarrow> world" where
  "record_duration t w =
     w\<lparr>dl := (dl w)\<lparr>Stats := (Stats (dl w))
        \<lparr>ChunkTimes := ChunkTimes (Stats (dl w)) @ [t]\<rparr>\<rparr>\<rparr>"

definition downloadChunk :: "env \<Rightarrow> ChunkInfo \<Rightarrow> world \<Rightarrow> error option \<times> world" where
  "downloadChunk en chunk w =
     (let (r, w') =
        (case http_NewRequest en (URL (dl w)) of
           Some err \<Rightarrow> (Some err, w)
         | None \<Rightarrow>
             (let w1 = emit (RangeRequest (URL (dl w)) (Start chunk) (End chunk)) w in
              (case client_Do en (URL (dl w)) (Start chunk) (End chunk) of
                 Inl err \<Rightarrow> (Some err, w1)
               | Inr resp \<Rightarrow>
                   (if StatusCode resp \<noteq> 206
                    then (Some (StatusError (StatusCode resp)), w1)
                    else stream_body en (Body resp) (Start chunk) w1))))
      in (r, record_duration (since en chunk) w'))"

section \<open>The fallback single-stream downloader (main.go, lines 161-224)\<close>

definition append_buffer :: "env \<Rightarrow> byte list \<Rightarrow> world \<Rightarrow> error option \<times> world" where
  "append_buffer en bs w =
     (if length bs > 0 then
        (case os_File_Write en (trace w) bs of
           WriteFailed k writeErr \<Rightarrow> (Some writeErr, emit (WriteSeq (take k bs)) w)
         | Written \<Rightarrow> (None, add_bytes (length bs) (emit (WriteSeq bs) w)))
      else (None, w))"

fun copy_body :: "env \<Rightarrow> body \<Rightarrow> world \<Rightarrow> error option \<times> world" where
  "copy_body en (EOF bs) w = append_buffer en bs w"
| "copy_body en (ReadFail bs err) w =
     (case append_buffer en bs w of
        (Some writeErr, w') \<Rightarrow> (Some writeErr, w')
      | (None, w') \<Rightarrow> (Some err, w'))"
| "copy_body en (Data bs rest) w =
     (case append_buffer en bs w of
        (Some writeErr, w') \<Rightarrow> (Some writeErr, w')
      | (None, w') \<Rightarrow> copy_body en rest w')"

text \<open>
  \<^verbatim>\<open>downloadSingleConnection\<close>. \<open>Inr n\<close> is the nil return, with the byte count \<open>n\<close> that
  the function prints as \<^verbatim>\<open>File size: %d bytes\<close> (\<^verbatim>\<open>actualFileSize\<close>, line 215).
\<close>

definition downloadSingleConnection :: "env \<Rightarrow> world \<Rightarrow> (error + int) \<times> world" where
  "downloadSingleConnection en w =
     (case os_Create en (Filename (dl w)) of
        Some err \<Rightarrow> (Inl err, w)
      | None \<Rightarrow>
          (let w1 = emit (GetRequest (URL (dl w))) (emit (CreateFile (Filename (dl w))) w) in
           (case client_Get en (URL (dl w)) of
              Inl err \<Rightarrow> (Inl err, w1)
            | Inr resp \<Rightarrow>
                (if StatusCode resp \<noteq> 200 then (Inl (StatusError (StatusCode resp)), w1)
                 else (case copy_body en (Body resp) w1 of
                         (Some err, w2) \<Rightarrow> (Inl err, w2)
                       | (None, w2) \<Rightarrow> (Inr (BytesDownloaded (Stats (dl w2))), w2))))))"

text \<open>The buffers a body delivers (the reads with \<open>n > 0\<close>) and their total length.\<close>

fun buffers :: "body \<Rightarrow> byte list list" where
  "buffers (EOF bs) = (if bs = [] then [] else [bs])"
| "buffers (ReadFail bs err) = (if bs = [] then [] else [bs])"
| "buffers (Data bs rest) = (if bs = [] then [] else [bs]) @ buffers rest"

definition body_length :: "body \<Rightarrow> int" where
  "body_length b = int (length (concat (buffers b)))"



text \<open>The positioned and the sequential writes of a trace.\<close>

fun writes_at :: "event list \<Rightarrow> (int \<times> byte list) list" where
  "writes_at [] = []"
| "writes_at (WriteAt off bs # evs) = (off, bs) # writes_at evs"
| "writes_at (ev # evs) = writes_at evs"




section \<open>The worker pool and \<^verbatim>\<open>Download\<close> (main.go, lines 257-357)\<close>

text \<open>
  The goroutines of \<^verbatim>\<open>Download\<close> as an interleaving of atomic steps. Thread 0 is the
  main goroutine: it runs the spawn loop (line 320, which reads \<^verbatim>\<open>d.CurrentConnections\<close>
  anew at every iteration), then \<^verbatim>\<open>wg.Wait()\<close>, then the \<^verbatim>\<open>select\<close> on the error channel.
  Thread \<open>k + 1\<close> is the worker spawned \<open>k\<close>-th. A worker is about to receive from the
  closed, pre-filled segment channel (\<open>Idle\<close>), inside \<^verbatim>\<open>downloadChunk\<close> (\<open>Fetching\<close>),
  about to call the controller (\<open>Adapting\<close>, after a segment whose index is a multiple
  of 5), about to send its error on the buffered error channel (\<open>Sending\<close>, which blocks
  while the channel is full), or done (\<open>Exited\<close>). A call of \<^verbatim>\<open>downloadChunk\<close> is one
  step: its writes go to offsets of its own and its updates of the shared statistics
  are made under the mutex. The progress reporter only reads and prints, and is left
  out.
\<close>

datatype wstate = Idle | Fetching ChunkInfo | Adapting | Sending error | Exited

datatype mstate = Spawning int | Waiting | Returned "error option"

record pool =
  pworld :: world
  chunkChan :: "ChunkInfo list"
  errChan :: "error list"
  errCap :: nat
  workers :: "wstate list"
  mainpc :: mstate

definition main_step :: "pool \<Rightarrow> pool" where
  "main_step p =
     (case mainpc p of
        Spawning i \<Rightarrow>
          if i < CurrentConnections (dl (pworld p))
          then p\<lparr>workers := workers p @ [Idle], mainpc := Spawning (i + 1)\<rparr>
          else p\<lparr>mainpc := Waiting\<rparr>
      | Waiting \<Rightarrow>
          if list_all (\<lambda>ws. ws = Exited) (workers p)
          then p\<lparr>mainpc := Returned (case errChan p of [] \<Rightarrow> None | err # _ \<Rightarrow> Some err)\<rparr>
          else p
      | Returned r \<Rightarrow> p)"

definition set_worker :: "nat \<Rightarrow> wstate \<Rightarrow> pool \<Rightarrow> pool" where
  "set_worker k ws p = p\<lparr>workers := (workers p)[k := ws]\<rparr>"

definition worker_step :: "env \<Rightarrow> nat \<Rightarrow> pool \<Rightarrow> pool" where
  "worker_step en k p =
     (case workers p ! k of
        Idle \<Rightarrow>
          (case chunkChan p of
             [] \<Rightarrow> set_worker k Exited p
           | chunk # rest \<Rightarrow>
               set_worker k (Fetching chunk)
                 (p\<lparr>chunkChan := rest, pworld := emit (Dispatched k chunk) (pworld p)\<rparr>))
      | Fetching chunk \<Rightarrow>
          (case downloadChunk en chunk (pworld p) of
             (Some err, w') \<Rightarrow>
               set_worker k (Sending (ChunkFailed (Index chunk) err))
                 (p\<lparr>pworld := emit (Failed k chunk err) w'\<rparr>)
           | (None, w') \<Rightarrow>
               set_worker k (if Index chunk mod 5 = 0 then Adapting else Idle)
                 (p\<lparr>pworld := w'\<rparr>))
      | Adapting \<Rightarrow>
          set_worker k Idle
            (p\<lparr>pworld := (pworld p)\<lparr>dl := calculateOptimalConnections (dl (pworld p))\<rparr>\<rparr>)
      | Sending err \<Rightarrow>
          if length (errChan p) < errCap p
          then set_worker k Exited (p\<lparr>errChan := errChan p @ [err]\<rparr>)
          else p
      | Exited \<Rightarrow> p)"

definition pool_step :: "env \<Rightarrow> pool \<Rightarrow> nat \<Rightarrow> pool" where
  "pool_step en p t =
     (if t = 0 then main_step p
      else if t - 1 < length (workers p) then worker_step en (t - 1) p
      else p)"

definition pool_exec :: "env \<Rightarrow> nat list \<Rightarrow> pool \<Rightarrow> pool" where
  "pool_exec en sched p = foldl (pool_step en) p sched"

text \<open>
  \<^verbatim>\<open>Download\<close> on a schedule of thread steps. The result is \<open>Some None\<close> for a nil
  return, \<open>Some (Some err)\<close> for an error return, and \<open>None\<close> when the function has not
  returned: the planning loop does not end, or the schedule ends (or the pool is
  stuck) before the main goroutine gets past \<^verbatim>\<open>wg.Wait()\<close>. The events of an effect
  that failed as a whole (a file that could not be created or truncated) are not
  recorded. \<^verbatim>\<open>make(chan error, n)\<close> panics for a negative \<open>n\<close>.
\<close>

definition pool_init :: "world \<Rightarrow> ChunkInfo list \<Rightarrow> pool" where
  "pool_init w chunks =
     \<lparr>pworld = w, chunkChan = chunks, errChan = [],
      errCap = nat (CurrentConnections (dl w)), workers = [], mainpc = Spawning 0\<rparr>"

definition Download :: "env \<Rightarrow> nat list \<Rightarrow> AdaptiveDownloader \<Rightarrow> error option option \<times> world" where
  "Download en sched d =
     (case getFileSize en \<lparr>dl = d, trace = []\<rparr> of
        (Inl err, w) \<Rightarrow> (Some (Some (FileInfoFailed err)), w)
      | (Inr supportsRanges, w) \<Rightarrow>
          (if \<not> supportsRanges then
             (case downloadSingleConnection en w of
                (Inl err, w') \<Rightarrow> (Some (Some err), w')
              | (Inr n, w') \<Rightarrow> (Some None, w'))
           else
             (case os_Create en (Filename (dl w)) of
                Some err \<Rightarrow> (Some (Some err), w)
              | None \<Rightarrow>
                  (let w1 = emit (CreateFile (Filename (dl w))) w in
                   (case file_Truncate en (FileSize (dl w)) of
                      Some err \<Rightarrow> (Some (Some err), w1)
                    | None \<Rightarrow>
                        (let w2 = emit (TruncateFile (FileSize (dl w))) w1 in
                         (case createChunks (FileSize (dl w)) (ChunkSize (dl w)) 0 [] of
                            None \<Rightarrow> (None, w2)
                          | Some chunks \<Rightarrow>
                              (if CurrentConnections (dl w) < 0
                               then (Some (Some (Panic ''makechan: size out of range'')), w2)
                               else
                                 (let p = pool_exec en sched (pool_init w2 chunks) in
                                  (case mainpc p of
                                     Returned r \<Rightarrow> (Some r, pworld p)
                                   | _ \<Rightarrow> (None, pworld p)))))))))))"

text \<open>
  The claim's words on stopping at the first failure: in the order of events, no
  segment is dispatched to any worker after a segment fetch has failed.
\<close>

fun no_dispatch_after_failure :: "event list \<Rightarrow> bool" where
  "no_dispatch_after_failure [] = True"
| "no_dispatch_after_failure (Failed k chunk err # evs) =
     list_all (\<lambda>ev. case ev of Dispatched k' chunk' \<Rightarrow> False | _ \<Rightarrow> True) evs"
| "no_dispatch_after_failure (ev # evs) = no_dispatch_after_failure evs"

text \<open>
  What the code does instead: a worker whose fetch has failed is dispatched no further
  segment (the other workers go on).
\<close>

fun failed_worker_stops :: "event list \<Rightarrow> bool" where
  "failed_worker_stops [] = True"
| "failed_worker_stops (Failed k chunk err # evs) =
     (list_all (\<lambda>ev. case ev of Dispatched k' chunk' \<Rightarrow> k' \<noteq> k | _ \<Rightarrow> True) evs
      \<and> failed_worker_stops evs)"
| "failed_worker_stops (ev # evs) = failed_worker_stops evs"

definition is_Failed :: "event \<Rightarrow> bool" where
  "is_Failed ev = (case ev of Failed k chunk err \<Rightarrow> True | _ \<Rightarrow> False)"

section \<open>Invariants of the worker pool\<close>

text \<open>
  The predicates the proofs about the pool use. A worker is \<open>stopped\<close> once its fetch
  has failed: it is about to send its error, or has exited. A response is
  \<open>partial_content\<close> when the client returned one and its status is 206. An event is
  \<open>quiet\<close> when it belongs to the sequential part of \<^verbatim>\<open>Download\<close>. The pool is \<open>stuck\<close>
  when the main goroutine waits for workers of which some can only send on the full
  error channel.
\<close>

definition stopped :: "wstate \<Rightarrow> bool" where
  "stopped ws = (case ws of Sending err \<Rightarrow> True | Exited \<Rightarrow> True | _ \<Rightarrow> False)"

definition is_Sending :: "wstate \<Rightarrow> bool" where
  "is_Sending ws = (case ws of Sending err \<Rightarrow> True | _ \<Rightarrow> False)"

definition partial_content :: "error + Response \<Rightarrow> bool" where
  "partial_content x = (case x of Inl err \<Rightarrow> False | Inr resp \<Rightarrow> StatusCode resp = 206)"

definition is_Dispatched :: "event \<Rightarrow> bool" where
  "is_Dispatched ev = (case ev of Dispatched k chunk \<Rightarrow> True | _ \<Rightarrow> False)"

definition quiet :: "event \<Rightarrow> bool" where
  "quiet ev = (\<not> is_Failed ev \<and> \<not> is_Dispatched ev \<and> (\<forall>u s e. ev \<noteq> RangeRequest u s e))"

definition fetch_event :: "env \<Rightarrow> ChunkInfo \<Rightarrow> world \<Rightarrow> error option \<Rightarrow> event \<Rightarrow> bool" where
  "fetch_event en chunk w r ev =
     ((\<exists>off bs. ev = WriteAt off bs) \<or>
      (ev = RangeRequest (URL (dl w)) (Start chunk) (End chunk) \<and>
       (\<not> partial_content (client_Do en (URL (dl w)) (Start chunk) (End chunk)) \<longrightarrow> r \<noteq> None)))"

definition inv_stop :: "pool \<Rightarrow> bool" where
  "inv_stop p = (\<forall>k c e. Failed k c e \<in> set (trace (pworld p)) \<longrightarrow>
       k < length (workers p) \<and> stopped (workers p ! k))"

definition inv_err :: "pool \<Rightarrow> bool" where
  "inv_err p = ((\<exists>ev \<in> set (trace (pworld p)). is_Failed ev) \<longrightarrow>
       errChan p \<noteq> [] \<or> (\<exists>k < length (workers p). is_Sending (workers p ! k)))"

definition inv_ret :: "pool \<Rightarrow> bool" where
  "inv_ret p = (\<forall>r. mainpc p = Returned r \<longrightarrow>
       list_all (\<lambda>ws. ws = Exited) (workers p) \<and>
       r = (case errChan p of [] \<Rightarrow> None | err # _ \<Rightarrow> Some err))"

definition inv_bad :: "env \<Rightarrow> pool \<Rightarrow> bool" where
  "inv_bad en p = (\<forall>u s e. RangeRequest u s e \<in> set (trace (pworld p)) \<longrightarrow>
       \<not> partial_content (client_Do en u s e) \<longrightarrow>
       (\<exists>ev \<in> set (trace (pworld p)). is_Failed ev))"

definition pool_inv :: "env \<Rightarrow> pool \<Rightarrow> bool" where
  "pool_inv en p =
     (inv_stop p \<and> failed_worker_stops (trace (pworld p)) \<and> inv_err p \<and> inv_ret p \<and>
      inv_bad en p)"

definition stuck :: "pool \<Rightarrow> bool" where
  "stuck p =
     (mainpc p = Waiting \<and>
      list_all (\<lambda>ws. ws = Exited \<or> is_Sending ws) (workers p) \<and>
      \<not> list_all (\<lambda>ws. ws = Exited) (workers p) \<and>
      errCap p \<le> length (errChan p))"

text \<open>
  For the runs in which the pool is no larger than the error channel: the work a pool
  has left (three units for a queued segment, and for each worker what it can still
  do before it exits), and the room the error channel has for one error of every
  worker that has not exited.
\<close>

fun rank :: "wstate \<Rightarrow> nat" where
  "rank Exited = 0"
| "rank (Sending err) = 1"
| "rank Idle = 2"
| "rank Adapting = 3"
| "rank (Fetching chunk) = 4"

definition alive :: "wstate \<Rightarrow> nat" where
  "alive ws = (if ws = Exited then 0 else 1)"

definition work_left :: "pool \<Rightarrow> nat" where
  "work_left p = 3 * length (chunkChan p) + sum_list (map rank (workers p))"

definition room :: "pool \<Rightarrow> bool" where
  "room p = (length (errChan p) + sum_list (map alive (workers p)) \<le> errCap p)"

section \<open>Example environments\<close>

text \<open>
  Concrete environments for the witnesses and counterexamples: one in which the server
  is unreachable and the disk never fails, and variations of it.
\<close>

definition quiet_env :: env where
  "quiet_env =
     \<lparr>http_Head = (\<lambda>u. Inl (NetError [])), http_NewRequest = (\<lambda>u. None),
      client_Do = (\<lambda>u s e. Inl (NetError [])), client_Get = (\<lambda>u. Inl (NetError [])),
      os_Create = (\<lambda>f. None), file_Truncate = (\<lambda>n. None),
      file_WriteAt = (\<lambda>h off bs. Written), file_Write = (\<lambda>h bs. Written),
      since = (\<lambda>c. Second)\<rparr>"



definition probe_env :: env where
  "probe_env = \<lparr>http_Head = (\<lambda>u. Inr \<lparr>StatusCode = 200,
       Header = (\<lambda>k. if k = ''Content-Length'' then [''1024'']
                      else if k = ''Accept-Ranges'' then [''bytes''] else []),
       Body = EOF []\<rparr>),
     http_NewRequest = (\<lambda>u. None), client_Do = (\<lambda>u s e. Inl (NetError [])),
     client_Get = (\<lambda>u. Inl (NetError [])), os_Create = (\<lambda>f. None),
     file_Truncate = (\<lambda>n. None), file_WriteAt = (\<lambda>h off bs. Written),
     file_Write = (\<lambda>h bs. Written), since = (\<lambda>c. 0)\<rparr>"



definition truncfail_env :: env where
  "truncfail_env = probe_env\<lparr>file_Truncate := (\<lambda>n. Some (FileError ''no space''))\<rparr>"

text \<open>
  Two servers that support ranges. The first advertises 3 MiB and answers the request
  for the first segment with status 200, the others with 206; the schedule runs two
  workers side by side. The second advertises 11 MiB and answers 206 for the first six
  segments and 200 for the rest; in its schedule the first worker fetches six segments
  and raises the worker count to 5 before the main goroutine comes back to its spawn
  loop.
\<close>

definition ranged_head :: "string \<Rightarrow> string \<Rightarrow> error + Response" where
  "ranged_head len u = Inr \<lparr>StatusCode = 200,
          Header = (\<lambda>k. if k = ''Content-Length'' then [len]
                         else if k = ''Accept-Ranges'' then [''bytes''] else []),
          Body = EOF []\<rparr>"

definition race_env :: env where
  "race_env = quiet_env
     \<lparr>http_Head := ranged_head ''3145728'',
       client_Do := (\<lambda>u s e. Inr \<lparr>StatusCode = (if s = 0 then 200 else 206),
          Header = (\<lambda>k. []), Body = EOF [7]\<rparr>)\<rparr>"

definition race_schedule :: "nat list" where
  "race_schedule = [0, 0, 0, 0, 0, 1, 2, 1, 1, 2, 2, 2, 2, 3, 4, 0]"

definition stall_env :: env where
  "stall_env = quiet_env
     \<lparr>http_Head := ranged_head ''11534336'',
       client_Do := (\<lambda>u s e. Inr \<lparr>StatusCode = (if s < 6291456 then 206 else 200),
          Header = (\<lambda>k. []), Body = EOF [7]\<rparr>)\<rparr>"

definition stall_schedule :: "nat list" where
  "stall_schedule =
     [0] @ [1, 1, 1] @ [1, 1] @ [1, 1] @ [1, 1] @ [1, 1] @ [1, 1, 1] @
     [0, 0, 0, 0, 0] @ [1, 1, 1] @ [2, 2, 2] @ [3, 3, 3] @ [4, 4, 4] @ [5, 5, 5] @ [0]"

definition stall_world :: world where
  "stall_world =
     \<lparr>dl = (NewAdaptiveDownloader ''u'' ''f'' 0)\<lparr>FileSize := 11534336\<rparr>,
      trace = [HeadRequest ''u'', CreateFile ''f'', TruncateFile 11534336]\<rparr>"

section \<open>Properties of the adaptive controller\<close>

lemma wrap64_id: "- (2 ^ 63) \<le> x \<Longrightarrow> x < 2 ^ 63 \<Longrightarrow> wrap64 x = x"
  by (simp add: wrap64_def)

lemma wrap64_range: "- (2 ^ 63) \<le> wrap64 x" "wrap64 x < 2 ^ 63"
  by (simp_all add: wrap64_def)

lemma wrap64_wrap64_add: "wrap64 (wrap64 a + b) = wrap64 (a + b)"
  unfolding wrap64_def by (simp add: algebra_simps mod_simps)

lemma foldl_wrap64:
  "foldl (\<lambda>acc t. wrap64 (acc + t)) (wrap64 a) xs = wrap64 (a + sum_list xs)"
  by (induction xs arbitrary: a) (simp_all add: wrap64_wrap64_add add.assoc)

lemma totalTime_sum: "totalTime xs = wrap64 (sum_list xs)"
  using foldl_wrap64 [of 0 xs] by (simp add: totalTime_def wrap64_def)

lemma quo_nonneg: "0 \<le> a \<Longrightarrow> 0 < b \<Longrightarrow> quo a b = a div b"
  by (cases "a = 0") (simp_all add: quo_def)

lemma calculateOptimalConnections_fields:
  "MaxConnections (calculateOptimalConnections d) = MaxConnections d"
  "MinConnections (calculateOptimalConnections d) = MinConnections d"
  "Stats (calculateOptimalConnections d) = Stats d"
  by (simp_all add: calculateOptimalConnections_def Let_def)

text \<open>
  C1, as the code has it. With fewer than three samples the controller changes nothing.
  Otherwise, for the three most recent samples \<open>a\<close>, \<open>b\<close>, \<open>c\<close>, the mean it compares is
  the quotient of their 64-bit sum by 3, truncated towards zero to whole nanoseconds:
  below 2 s and under the maximum the count goes up by exactly one, else above 5 s and
  over the minimum it goes down by exactly one, else nothing changes.
\<close>

theorem C1_controller_step:
  "(length (ChunkTimes (Stats d)) < 3 \<longrightarrow>
      calculateOptimalConnections d = d) \<and>
   (ChunkTimes (Stats d) = pre @ [a, b, c] \<longrightarrow>
      calculateOptimalConnections d =
        (let m = quo (wrap64 (a + b + c)) 3 in
         if m < 2 * Second \<and> CurrentConnections d < MaxConnections d
         then d\<lparr>CurrentConnections := CurrentConnections d + 1\<rparr>
         else if m > 5 * Second \<and> CurrentConnections d > MinConnections d
         then d\<lparr>CurrentConnections := CurrentConnections d - 1\<rparr>
         else d))"
proof (intro conjI impI)
  assume "length (ChunkTimes (Stats d)) < 3"
  then show "calculateOptimalConnections d = d"
    by (simp add: calculateOptimalConnections_def)
next
  assume ts: "ChunkTimes (Stats d) = pre @ [a, b, c]"
  have recent: "drop (length (ChunkTimes (Stats d)) - 3) (ChunkTimes (Stats d)) = [a, b, c]"
    by (simp add: ts)
  have len: "\<not> length (ChunkTimes (Stats d)) < 3"
    by (simp add: ts)
  show "calculateOptimalConnections d =
        (let m = quo (wrap64 (a + b + c)) 3 in
         if m < 2 * Second \<and> CurrentConnections d < MaxConnections d
         then d\<lparr>CurrentConnections := CurrentConnections d + 1\<rparr>
         else if m > 5 * Second \<and> CurrentConnections d > MinConnections d
         then d\<lparr>CurrentConnections := CurrentConnections d - 1\<rparr>
         else d)"
    unfolding calculateOptimalConnections_def Let_def recent
    using len by (simp add: totalTime_sum add.assoc)
qed

text \<open>
  The theorem at the constructor's defaults: no sample leaves the downloader as it is;
  three samples of one second raise the count from 4 to 5.
\<close>

theorem C1_controller_step_witness:
  "calculateOptimalConnections (NewAdaptiveDownloader ''u'' ''f'' 0) =
     NewAdaptiveDownloader ''u'' ''f'' 0 \<and>
   CurrentConnections (calculateOptimalConnections
     ((NewAdaptiveDownloader ''u'' ''f'' 0)
        \<lparr>Stats := \<lparr>BytesDownloaded = 0, StartTime = 0,
                   ChunkTimes = [1000000000, 1000000000, 1000000000]\<rparr>\<rparr>)) = 5"
  using C1_controller_step [of "NewAdaptiveDownloader ''u'' ''f'' 0" "[]" 0 0 0]
    C1_controller_step [of "(NewAdaptiveDownloader ''u'' ''f'' 0)
        \<lparr>Stats := \<lparr>BytesDownloaded = 0, StartTime = 0,
                   ChunkTimes = [1000000000, 1000000000, 1000000000]\<rparr>\<rparr>"
      "[]" 1000000000 1000000000 1000000000]
  by (simp add: NewAdaptiveDownloader_def wrap64_def quo_def Second_def)

text \<open>
  C1 as the claim words it fails: the samples 5 s, 5 s and 5 s + 1 ns have an arithmetic
  mean above 5 s, so the claim has the count go from 4 to 3; the code's truncated mean
  is exactly 5 s and the count stays 4.
\<close>

theorem C1_mean_counterexample:
  "spec_controller_count
     ((NewAdaptiveDownloader ''u'' ''f'' 0)
        \<lparr>Stats := \<lparr>BytesDownloaded = 0, StartTime = 0,
                   ChunkTimes = [5000000000, 5000000000, 5000000001]\<rparr>\<rparr>) = 3 \<and>
   CurrentConnections (calculateOptimalConnections
     ((NewAdaptiveDownloader ''u'' ''f'' 0)
        \<lparr>Stats := \<lparr>BytesDownloaded = 0, StartTime = 0,
                   ChunkTimes = [5000000000, 5000000000, 5000000001]\<rparr>\<rparr>)) = 4"
  by (simp add: spec_controller_count_def spec_mean3_def calculateOptimalConnections_def
      NewAdaptiveDownloader_def totalTime_def wrap64_def quo_def Second_def)

lemma calculateOptimalConnections_bounds:
  "MinConnections d \<le> CurrentConnections d \<Longrightarrow> CurrentConnections d \<le> MaxConnections d \<Longrightarrow>
   MinConnections d \<le> CurrentConnections (calculateOptimalConnections d) \<and>
   CurrentConnections (calculateOptimalConnections d) \<le> MaxConnections d"
  by (simp add: calculateOptimalConnections_def Let_def)

lemma controller_calls_inv:
  "MinConnections d \<le> CurrentConnections d \<Longrightarrow> CurrentConnections d \<le> MaxConnections d \<Longrightarrow>
   MinConnections (controller_calls hs d) = MinConnections d \<and>
   MaxConnections (controller_calls hs d) = MaxConnections d \<and>
   MinConnections d \<le> CurrentConnections (controller_calls hs d) \<and>
   CurrentConnections (controller_calls hs d) \<le> MaxConnections d"
proof (induction hs arbitrary: d)
  case Nil
  then show ?case by simp
next
  case (Cons ts hs)
  let ?d = "d\<lparr>Stats := (Stats d)\<lparr>ChunkTimes := ts\<rparr>\<rparr>"
  have "MinConnections ?d \<le> CurrentConnections ?d" "CurrentConnections ?d \<le> MaxConnections ?d"
    using Cons.prems by simp_all
  from calculateOptimalConnections_bounds [OF this] Cons.IH [of "calculateOptimalConnections ?d"]
  show ?case by (simp add: calculateOptimalConnections_fields)
qed

text \<open>
  C2. From the constructor's downloader, after any sequence of controller calls, each
  on any duration history, the worker count is within [2, 16] and the two bounds
  themselves are still 2 and 16.
\<close>

theorem C2_worker_count_bounds:
  "2 \<le> CurrentConnections (controller_calls hs (NewAdaptiveDownloader url filename now)) \<and>
   CurrentConnections (controller_calls hs (NewAdaptiveDownloader url filename now)) \<le> 16 \<and>
   MinConnections (controller_calls hs (NewAdaptiveDownloader url filename now)) = 2 \<and>
   MaxConnections (controller_calls hs (NewAdaptiveDownloader url filename now)) = 16"
  using controller_calls_inv [of "NewAdaptiveDownloader url filename now" hs]
  by (simp add: NewAdaptiveDownloader_def)

section \<open>Properties of the chunk planner\<close>

lemma lt_chunk_count: "0 < L \<Longrightarrow> (k < chunk_count S L) = (int k * L < S)"
proof -
  assume L: "0 < L"
  have "(int k < (S + L - 1) div L) = (int k * L < S)"
  proof
    assume q: "int k < (S + L - 1) div L"
    have "(int k + 1) * L \<le> ((S + L - 1) div L) * L"
      using q L by (simp add: mult_right_mono)
    moreover have "S + L - 1 = ((S + L - 1) div L) * L + (S + L - 1) mod L" by simp
    moreover have "0 \<le> (S + L - 1) mod L" using L by simp
    ultimately have "(int k + 1) * L \<le> S + L - 1" by linarith
    then show "int k * L < S" by (simp add: algebra_simps)
  next
    assume "int k * L < S"
    then have "(int k + 1) * L \<le> S + L - 1" by (simp add: algebra_simps)
    then have "((int k + 1) * L) div L \<le> (S + L - 1) div L" by (rule zdiv_mono1) (rule L)
    then show "int k < (S + L - 1) div L" using L by simp
  qed
  then show ?thesis by (auto simp: chunk_count_def)
qed

lemma createChunks_closed:
  assumes L: "0 < L" and S: "0 \<le> S" and fit: "S + L \<le> 2 ^ 63"
  shows "n = chunk_count S L - k \<Longrightarrow> k \<le> chunk_count S L \<Longrightarrow> length acc = k \<Longrightarrow>
         createChunks S L (int k * L) acc = Some (acc @ map (chunk_at S L) [k..<chunk_count S L])"
proof (induction n arbitrary: k acc)
  case 0
  then have "k = chunk_count S L" by simp
  then have "\<not> int k * L < S" using lt_chunk_count [OF L, of k S] by simp
  then show ?case using \<open>k = chunk_count S L\<close> by (subst createChunks.simps) simp
next
  case (Suc n)
  then have klt: "k < chunk_count S L" by simp
  then have lt: "int k * L < S" using lt_chunk_count [OF L, of k S] by simp
  have nonneg: "0 \<le> int k * L" using L by simp
  have w1: "wrap64 (int k * L + L) = int k * L + L"
    using lt nonneg L fit by (intro wrap64_id) linarith+
  have w2: "wrap64 (int k * L + L - 1) = int k * L + L - 1"
    using lt nonneg L fit by (intro wrap64_id) linarith+
  have w3: "wrap64 (S - 1) = S - 1"
    using S L fit by (intro wrap64_id) linarith+
  have next_i: "int k * L + L = int (Suc k) * L" by (simp add: algebra_simps)
  have e: "(if S \<le> int k * L + L - 1 then S - 1 else int k * L + L - 1) =
      min (int k * L + L - 1) (S - 1)"
    by (simp add: min_def)
  have IH: "createChunks S L (int (Suc k) * L) (acc @ [chunk_at S L k]) =
      Some ((acc @ [chunk_at S L k]) @ map (chunk_at S L) [Suc k..<chunk_count S L])"
    using Suc.prems klt by (intro Suc.IH) auto
  have "createChunks S L (int k * L) acc =
        createChunks S L (wrap64 (int k * L + L))
          (acc @ [\<lparr>Start = int k * L,
                    End = (if S \<le> wrap64 (wrap64 (int k * L + L) - 1) then wrap64 (S - 1)
                           else wrap64 (wrap64 (int k * L + L) - 1)),
                    Index = int (length acc)\<rparr>])"
    by (subst createChunks.simps) (simp only: lt if_True Let_def)
  also have "\<dots> = createChunks S L (int (Suc k) * L) (acc @ [chunk_at S L k])"
    by (simp only: w1 w2 w3 e) (simp only: next_i chunk_at_def Suc.prems(3))
  also note IH
  finally show ?case using klt by (simp add: upt_conv_Cons)
qed

lemma createChunks_plan:
  assumes "0 \<le> S" "0 < L" "S + L \<le> 2 ^ 63"
  shows "createChunks S L 0 [] = Some (map (chunk_at S L) [0..<chunk_count S L])"
  using createChunks_closed [OF assms(2,1,3), of "chunk_count S L" 0 "[]"] by simp

lemma chunk_at_full:
  assumes L: "0 < L" and j: "Suc j < chunk_count S L"
  shows "End (chunk_at S L j) = int j * L + L - 1"
proof -
  have "int (Suc j) * L < S" using lt_chunk_count [OF L, of "Suc j" S] j by simp
  then show ?thesis by (simp add: chunk_at_def algebra_simps)
qed

lemma chunk_at_last:
  assumes L: "0 < L" and n: "0 < chunk_count S L"
  shows "End (chunk_at S L (chunk_count S L - 1)) = S - 1"
    and "Start (chunk_at S L (chunk_count S L - 1)) < S"
proof -
  obtain m where m: "chunk_count S L = Suc m" using n by (cases "chunk_count S L") auto
  have "\<not> int (Suc m) * L < S" using lt_chunk_count [OF L, of "Suc m" S] m by simp
  then have "S \<le> int m * L + L" by (simp add: algebra_simps)
  then show "End (chunk_at S L (chunk_count S L - 1)) = S - 1"
    unfolding m by (simp add: chunk_at_def)
  have "int m * L < S" using lt_chunk_count [OF L, of m S] m by simp
  then show "Start (chunk_at S L (chunk_count S L - 1)) < S"
    unfolding m by (simp add: chunk_at_def)
qed

lemma chunk_cover:
  assumes L: "0 < L"
  shows "(\<Union>j\<in>{0..<chunk_count S L}. {Start (chunk_at S L j)..End (chunk_at S L j)}) = {0..<S}"
proof (intro equalityI subsetI)
  fix x assume "x \<in> (\<Union>j\<in>{0..<chunk_count S L}. {Start (chunk_at S L j)..End (chunk_at S L j)})"
  then obtain j where x: "int j * L \<le> x" "x \<le> min (int j * L + L - 1) (S - 1)"
    by (auto simp: chunk_at_def)
  have "0 \<le> int j * L" using L by simp
  then have "0 \<le> x" "x < S" using x by linarith+
  then show "x \<in> {0..<S}" by simp
next
  fix x assume "x \<in> {0..<S}"
  then have x: "0 \<le> x" "x < S" by auto
  define j where "j = nat (x div L)"
  have "0 \<le> x div L" using x L by (simp add: pos_imp_zdiv_nonneg_iff)
  then have ij: "int j = x div L" by (simp add: j_def)
  have m: "0 \<le> x mod L" "x mod L < L" using L by simp_all
  have d: "x = (x div L) * L + x mod L" by simp
  have lo: "int j * L \<le> x" unfolding ij using m d by linarith
  have hi: "x \<le> int j * L + L - 1" unfolding ij using m d by linarith
  have "int j * L < S" using lo x by simp
  then have jn: "j < chunk_count S L" using lt_chunk_count [OF L, of j S] by simp
  have "Start (chunk_at S L j) \<le> x" using lo by (simp add: chunk_at_def)
  moreover have "x \<le> End (chunk_at S L j)" using hi x(2) by (simp add: chunk_at_def)
  ultimately have "x \<in> {Start (chunk_at S L j)..End (chunk_at S L j)}" by simp
  then show "x \<in> (\<Union>j\<in>{0..<chunk_count S L}. {Start (chunk_at S L j)..End (chunk_at S L j)})"
    using jn by (intro UN_I [of j]) simp_all
qed

text \<open>
  C3, as the code has it: for a total size \<open>S \<ge> 0\<close> and a segment length \<open>L > 0\<close> whose
  sum stays within the 64-bit integers (\<open>S + L \<le> 2^63\<close>, so that the loop counter never
  wraps), the loop ends with a plan that is empty for \<open>S = 0\<close>, carries the indices
  0, 1, 2, ... in order, has strictly increasing starts, each segment starting right
  after the end of the one before and of length \<open>L\<close> except possibly the last, no two
  segments overlapping, starts at 0, ends at \<open>S - 1\<close>, and covers exactly the offsets
  of [0, S).
\<close>

theorem C3_chunk_plan:
  assumes "0 \<le> S" "0 < L" "S + L \<le> 2 ^ 63"
  shows "\<exists>cs. createChunks S L 0 [] = Some cs \<and>
     (S = 0 \<longrightarrow> cs = []) \<and>
     (\<forall>j. j < length cs \<longrightarrow> Index (cs ! j) = int j \<and> Start (cs ! j) \<le> End (cs ! j)) \<and>
     sorted_wrt (\<lambda>a b. Start a < Start b) cs \<and>
     (\<forall>j. Suc j < length cs \<longrightarrow>
          Start (cs ! Suc j) = End (cs ! j) + 1 \<and> End (cs ! j) - Start (cs ! j) + 1 = L) \<and>
     (\<forall>i j. i < j \<and> j < length cs \<longrightarrow> End (cs ! i) < Start (cs ! j)) \<and>
     (cs \<noteq> [] \<longrightarrow> Start (hd cs) = 0 \<and> End (last cs) = S - 1 \<and>
          End (last cs) - Start (last cs) + 1 \<le> L) \<and>
     (\<Union>c\<in>set cs. {Start c..End c}) = {0..<S}"
proof -
  let ?n = "chunk_count S L"
  let ?cs = "map (chunk_at S L) [0..<?n]"
  have L: "0 < L" by (rule assms)
  have 1: "createChunks S L 0 [] = Some ?cs" using assms by (rule createChunks_plan)
  have 2: "S = 0 \<longrightarrow> ?cs = []" using L by (simp add: chunk_count_def)
  have lo: "\<And>j. j < ?n \<Longrightarrow> Start (chunk_at S L j) \<le> End (chunk_at S L j)"
  proof -
    fix j assume "j < ?n"
    then have "int j * L < S" using lt_chunk_count [OF L, of j S] by simp
    then show "Start (chunk_at S L j) \<le> End (chunk_at S L j)"
      using L by (simp add: chunk_at_def)
  qed
  have 3: "\<forall>j. j < length ?cs \<longrightarrow> Index (?cs ! j) = int j \<and> Start (?cs ! j) \<le> End (?cs ! j)"
    using lo by (simp add: chunk_at_def)
  have 4: "sorted_wrt (\<lambda>a b. Start a < Start b) ?cs"
    using L by (simp add: sorted_wrt_iff_nth_less chunk_at_def)
  have 5: "\<forall>j. Suc j < length ?cs \<longrightarrow>
          Start (?cs ! Suc j) = End (?cs ! j) + 1 \<and> End (?cs ! j) - Start (?cs ! j) + 1 = L"
  proof (intro allI impI)
    fix j assume "Suc j < length ?cs"
    then have j: "Suc j < ?n" by simp
    have e: "End (chunk_at S L j) = int j * L + L - 1" using L j by (rule chunk_at_full)
    have "Start (chunk_at S L (Suc j)) = int j * L + L" "Start (chunk_at S L j) = int j * L"
      by (simp_all add: chunk_at_def algebra_simps)
    then show "Start (?cs ! Suc j) = End (?cs ! j) + 1 \<and> End (?cs ! j) - Start (?cs ! j) + 1 = L"
      using j e by simp
  qed
  have 6: "?cs \<noteq> [] \<longrightarrow> Start (hd ?cs) = 0 \<and> End (last ?cs) = S - 1 \<and>
          End (last ?cs) - Start (last ?cs) + 1 \<le> L"
  proof
    assume "?cs \<noteq> []"
    then have n: "0 < ?n" by simp
    then have h: "hd ?cs = chunk_at S L 0" by (simp add: hd_map upt_conv_Cons)
    have l: "last ?cs = chunk_at S L (?n - 1)" using n by (simp add: last_map last_upt)
    have "End (chunk_at S L (?n - 1)) \<le> int (?n - 1) * L + L - 1" by (simp add: chunk_at_def)
    then show "Start (hd ?cs) = 0 \<and> End (last ?cs) = S - 1 \<and>
          End (last ?cs) - Start (last ?cs) + 1 \<le> L"
      unfolding h l using chunk_at_last(1) [OF L n] by (simp add: chunk_at_def)
  qed
  have 7: "(\<Union>c\<in>set ?cs. {Start c..End c}) = {0..<S}"
    using chunk_cover [OF L, of S] by simp
  have 8: "\<forall>i j. i < j \<and> j < length ?cs \<longrightarrow> End (?cs ! i) < Start (?cs ! j)"
  proof (intro allI impI)
    fix i j assume ij: "i < j \<and> j < length ?cs"
    then have "int i + 1 \<le> int j" by simp
    then have "(int i + 1) * L \<le> int j * L" using L by (simp only: mult_right_mono)
    moreover have "End (chunk_at S L i) \<le> int i * L + L - 1" by (simp add: chunk_at_def)
    ultimately have "End (chunk_at S L i) < Start (chunk_at S L j)"
      by (simp add: chunk_at_def algebra_simps)
    then show "End (?cs ! i) < Start (?cs ! j)" using ij by simp
  qed
  from 1 2 3 4 5 6 7 8 show ?thesis by blast
qed

text \<open>The theorem at \<open>S = 10\<close>, \<open>L = 4\<close>: three segments, the last one clamped to 9.\<close>

theorem C3_chunk_plan_witness:
  "(0::int) \<le> 10 \<and> (0::int) < 4 \<and> (10::int) + 4 \<le> 2 ^ 63 \<and>
   createChunks 10 4 0 [] =
     Some [\<lparr>Start = 0, End = 3, Index = 0\<rparr>, \<lparr>Start = 4, End = 7, Index = 1\<rparr>,
           \<lparr>Start = 8, End = 9, Index = 2\<rparr>]"
proof -
  have "createChunks 10 4 0 [] =
     Some [\<lparr>Start = 0, End = 3, Index = 0\<rparr>, \<lparr>Start = 4, End = 7, Index = 1\<rparr>,
           \<lparr>Start = 8, End = 9, Index = 2\<rparr>]"
    by (subst createChunks.simps, simp add: wrap64_def)+
  then show ?thesis using C3_chunk_plan [of 10 4] by simp
qed

lemma wrap64_dvd_MiB: "(2 ^ 20 :: int) dvd i \<Longrightarrow> 2 ^ 20 dvd wrap64 (i + 1024 * 1024)"
proof -
  assume i: "(2 ^ 20 :: int) dvd i"
  have d64: "(2 ^ 20 :: int) dvd 2 ^ 64" and d63: "(2 ^ 20 :: int) dvd 2 ^ 63"
    by (simp_all add: le_imp_power_dvd)
  have "(2 ^ 20 :: int) dvd i + 1024 * 1024 + 2 ^ 63"
    using i d63 by (intro dvd_add) simp_all
  then have "(2 ^ 20 :: int) dvd (i + 1024 * 1024 + 2 ^ 63) mod 2 ^ 64"
    using d64 by (simp only: dvd_mod_iff)
  then show ?thesis
    unfolding wrap64_def using d63 by (rule dvd_diff)
qed

lemma createChunks_never_returns:
  "createChunks S L i acc = Some r \<Longrightarrow>
   \<not> (S = 2 ^ 63 - 1 \<and> L = 1024 * 1024 \<and> 2 ^ 20 dvd i \<and> i < 2 ^ 63)"
proof (rule createChunks.raw_induct
    [where P = "\<lambda>S L i acc r. \<not> (S = 2 ^ 63 - 1 \<and> L = 1024 * 1024 \<and> 2 ^ 20 dvd i \<and> i < 2 ^ 63)"])
  fix f and S L i :: int and acc r :: "ChunkInfo list"
  assume IH: "\<And>S L i acc r. f S L i acc = Some r \<Longrightarrow>
      \<not> (S = 2 ^ 63 - 1 \<and> L = 1024 * 1024 \<and> 2 ^ 20 dvd i \<and> i < 2 ^ 63)"
    and body: "(if i < S then
        (let e0 = wrap64 (wrap64 (i + L) - 1);
             e = (if e0 \<ge> S then wrap64 (S - 1) else e0)
         in f S L (wrap64 (i + L))
              (acc @ [\<lparr>Start = i, End = e, Index = int (length acc)\<rparr>]))
      else Some acc) = Some r"
  show "\<not> (S = 2 ^ 63 - 1 \<and> L = 1024 * 1024 \<and> 2 ^ 20 dvd i \<and> i < 2 ^ 63)"
  proof
    assume a: "S = 2 ^ 63 - 1 \<and> L = 1024 * 1024 \<and> 2 ^ 20 dvd i \<and> i < 2 ^ 63"
    then have 1: "2 ^ 20 dvd wrap64 (i + L)" using wrap64_dvd_MiB by simp
    have 2: "wrap64 (i + L) < 2 ^ 63" by (rule wrap64_range)
    have "\<not> (2 ^ 20 :: int) dvd 2 ^ 63 - 1" by simp
    then have "i \<noteq> 2 ^ 63 - 1" using a by auto
    then have "i < S" using a by simp
    with body IH [of S L "wrap64 (i + L)"] a 1 2 show False by (simp add: Let_def)
  qed
qed (assumption)

text \<open>
  C3 as the claim words it, for every \<open>S \<ge> 0\<close> and \<open>L > 0\<close>, fails at the largest
  64-bit size with the constructor's segment length of 1 MiB: the counter wraps to a
  negative offset instead of passing \<open>S\<close>, and the loop never produces a plan.
\<close>

theorem C3_overflow_counterexample:
  "createChunks (2 ^ 63 - 1) (1024 * 1024) 0 [] = None"
proof (cases "createChunks (2 ^ 63 - 1) (1024 * 1024) 0 []")
  case None
  then show ?thesis .
next
  case (Some r)
  from createChunks_never_returns [OF this] show ?thesis by simp
qed

section \<open>Properties of the capability probe\<close>

lemma Header_Get_absent: "h key = [] \<Longrightarrow> Header_Get h key = []"
  by (simp add: Header_Get_def)

text \<open>
  C4. On a probe answered with status 200: when the Content-Length header is absent the
  size is marked unknown (\<open>-1\<close>) and range support is reported false, whatever the
  Accept-Ranges header says; when it is present and parses, its value is the recorded
  size and range support is reported exactly when Accept-Ranges is \<open>bytes\<close>.
\<close>

theorem C4_capability_probe:
  assumes "http_Head en (URL (dl w)) = Inr resp" and "StatusCode resp = 200"
  shows "(Header resp ''Content-Length'' = [] \<longrightarrow>
            fst (getFileSize en w) = Inr False \<and>
            FileSize (dl (snd (getFileSize en w))) = - 1) \<and>
         (Header_Get (Header resp) ''Content-Length'' \<noteq> [] \<and>
          ParseInt (Header_Get (Header resp) ''Content-Length'') = Inr n \<longrightarrow>
            fst (getFileSize en w) =
              Inr (Header_Get (Header resp) ''Accept-Ranges'' = ''bytes'') \<and>
            FileSize (dl (snd (getFileSize en w))) = n)"
  using assms by (simp add: getFileSize_def Let_def Header_Get_absent)

text \<open>
  The theorem at the spec's example: 200, Content-Length 1024, Accept-Ranges bytes gives
  size 1024 and range support.
\<close>

theorem C4_capability_probe_witness:
  "fst (getFileSize probe_env \<lparr>dl = NewAdaptiveDownloader ''u'' ''f'' 0, trace = []\<rparr>) = Inr True \<and>
   FileSize (dl (snd (getFileSize probe_env
     \<lparr>dl = NewAdaptiveDownloader ''u'' ''f'' 0, trace = []\<rparr>))) = 1024"
  using C4_capability_probe [of probe_env "\<lparr>dl = NewAdaptiveDownloader ''u'' ''f'' 0, trace = []\<rparr>"
     "\<lparr>StatusCode = 200,
       Header = (\<lambda>k. if k = ''Content-Length'' then [''1024'']
                      else if k = ''Accept-Ranges'' then [''bytes''] else []),
       Body = EOF []\<rparr>" 1024]
  by (simp add: probe_env_def Header_Get_def ParseInt_def digit_def)

section \<open>Properties of the segment fetcher\<close>

lemma write_buffer_ChunkTimes:
  "write_buffer en bs off w = (r, w') \<Longrightarrow>
   ChunkTimes (Stats (dl w')) = ChunkTimes (Stats (dl w))"
  by (auto simp: write_buffer_def emit_def add_bytes_def split: write_result.splits if_splits)

lemma stream_body_ChunkTimes:
  "stream_body en b off w = (r, w') \<Longrightarrow>
   ChunkTimes (Stats (dl w')) = ChunkTimes (Stats (dl w))"
proof (induction b arbitrary: off w)
  case (EOF bs)
  then show ?case by (simp add: write_buffer_ChunkTimes)
next
  case (ReadFail bs err)
  then show ?case
    by (auto split: prod.splits option.splits dest: write_buffer_ChunkTimes)
next
  case (Data bs rest)
  then show ?case
    by (auto split: prod.splits option.splits dest: write_buffer_ChunkTimes)
qed

text \<open>
  C10. Whatever happens inside \<^verbatim>\<open>downloadChunk\<close> (the request cannot be built, the client
  fails, the status is not 206, a write fails, a read fails, or all goes well), the
  duration history after the call is the history before it with exactly one sample
  appended, the one of this call; the controller's window of the last three samples
  therefore takes in failed fetches too.
\<close>

theorem C10_duration_sample:
  "ChunkTimes (Stats (dl (snd (downloadChunk en chunk w)))) =
     ChunkTimes (Stats (dl w)) @ [since en chunk]"
  by (auto simp: downloadChunk_def Let_def record_duration_def emit_def
      split: option.splits sum.splits prod.splits dest: stream_body_ChunkTimes)


lemma body_length_nonneg: "0 \<le> body_length b"
  by (simp add: body_length_def)

lemma writes_at_append: "writes_at (xs @ ys) = writes_at xs @ writes_at ys"
  by (induction xs rule: writes_at.induct) simp_all

lemma writes_at_map: "writes_at (map (\<lambda>(off, bs). WriteAt off bs) ws) = ws"
  by (induction ws) auto













lemma record_duration_trace [simp]: "trace (record_duration t w) = trace w"
  by (simp add: record_duration_def)





lemma downloadChunk_not_206:
  assumes "http_NewRequest en (URL (dl w)) = None"
    and "client_Do en (URL (dl w)) (Start chunk) (End chunk) = Inr resp"
    and "StatusCode resp \<noteq> 206"
  shows "downloadChunk en chunk w =
           (Some (StatusError (StatusCode resp)),
            record_duration (since en chunk)
              (emit (RangeRequest (URL (dl w)) (Start chunk) (End chunk)) w))"
  using assms by (simp add: downloadChunk_def Let_def)

section \<open>Properties of the fallback downloader\<close>













section \<open>Properties of \<^verbatim>\<open>Download\<close>\<close>

lemma getFileSize_facts:
  assumes "getFileSize en w = (r, w')"
  shows "trace w' = trace w @ [HeadRequest (URL (dl w))]"
    and "Filename (dl w') = Filename (dl w)" and "URL (dl w') = URL (dl w)"
  using assms
  by (auto simp: getFileSize_def Let_def emit_def split: sum.splits if_splits)

text \<open>
  C8. On the range-based path (the probe reports range support), when the output file
  is created but cannot be truncated to the known size, \<^verbatim>\<open>Download\<close> returns the
  truncation error itself, on every schedule, and the only effects are the probe's
  HEAD request and the creation of the file: no segment is dispatched, no range request
  is issued and nothing is written.
\<close>

theorem C8_presize_failure:
  assumes "getFileSize en \<lparr>dl = d, trace = []\<rparr> = (Inr True, w)"
    and "os_Create en (Filename d) = None"
    and "file_Truncate en (FileSize (dl w)) = Some err"
  shows "fst (Download en sched d) = Some (Some err) \<and>
         trace (snd (Download en sched d)) = [HeadRequest (URL d), CreateFile (Filename d)]"
  using assms getFileSize_facts [OF assms(1)]
  by (simp add: Download_def Let_def emit_def)

text \<open>
  The theorem in an environment whose probe reports 1024 bytes with range support and
  whose disk refuses the truncation.
\<close>

theorem C8_presize_failure_witness:
  "Download truncfail_env [0, 1, 2] (NewAdaptiveDownloader ''u'' ''f'' 0) =
     (Some (Some (FileError ''no space'')),
      \<lparr>dl = (NewAdaptiveDownloader ''u'' ''f'' 0)\<lparr>FileSize := 1024\<rparr>,
       trace = [HeadRequest ''u'', CreateFile ''f'']\<rparr>)"
proof -
  have probe: "getFileSize truncfail_env \<lparr>dl = NewAdaptiveDownloader ''u'' ''f'' 0, trace = []\<rparr> =
     (Inr True, \<lparr>dl = (NewAdaptiveDownloader ''u'' ''f'' 0)\<lparr>FileSize := 1024\<rparr>,
                 trace = [HeadRequest ''u'']\<rparr>)"
    by (simp add: getFileSize_def truncfail_env_def probe_env_def NewAdaptiveDownloader_def
        Header_Get_def ParseInt_def digit_def emit_def)
  have "fst (Download truncfail_env [0, 1, 2] (NewAdaptiveDownloader ''u'' ''f'' 0)) =
          Some (Some (FileError ''no space'')) \<and>
        trace (snd (Download truncfail_env [0, 1, 2] (NewAdaptiveDownloader ''u'' ''f'' 0))) =
          [HeadRequest (URL (NewAdaptiveDownloader ''u'' ''f'' 0)),
           CreateFile (Filename (NewAdaptiveDownloader ''u'' ''f'' 0))]"
    by (rule C8_presize_failure [OF probe])
      (simp_all add: truncfail_env_def probe_env_def)
  moreover have "dl (snd (Download truncfail_env [0, 1, 2] (NewAdaptiveDownloader ''u'' ''f'' 0))) =
      (NewAdaptiveDownloader ''u'' ''f'' 0)\<lparr>FileSize := 1024\<rparr>"
    using probe by (simp add: Download_def Let_def emit_def truncfail_env_def probe_env_def)
  ultimately show ?thesis
    by (cases "Download truncfail_env [0, 1, 2] (NewAdaptiveDownloader ''u'' ''f'' 0)")
      (simp add: NewAdaptiveDownloader_def)
qed

section \<open>Properties of the worker pool\<close>

lemma failed_worker_stops_snoc:
  "failed_worker_stops (tr @ [ev]) =
     (failed_worker_stops tr \<and>
      (case ev of Dispatched k chunk \<Rightarrow> (\<forall>c e. Failed k c e \<notin> set tr) | _ \<Rightarrow> True))"
  by (induction tr rule: failed_worker_stops.induct)
    (auto simp: list_all_iff split: event.splits)

lemma failed_worker_stops_append_quiet:
  "list_all (\<lambda>ev. \<not> is_Dispatched ev) evs \<Longrightarrow>
   failed_worker_stops (tr @ evs) = failed_worker_stops tr"
proof (induction evs rule: rev_induct)
  case Nil
  then show ?case by simp
next
  case (snoc ev evs)
  then show ?case
    using failed_worker_stops_snoc [of "tr @ evs" ev]
    by (auto simp: is_Dispatched_def split: event.splits)
qed

lemma write_buffer_events:
  "write_buffer en bs off w = (r, w') \<Longrightarrow>
   \<exists>evs. trace w' = trace w @ evs \<and> (\<forall>ev \<in> set evs. \<exists>off bs. ev = WriteAt off bs)"
  by (auto simp: write_buffer_def emit_def add_bytes_def split: write_result.splits if_splits)

lemma stream_body_events:
  "stream_body en b off w = (r, w') \<Longrightarrow>
   \<exists>evs. trace w' = trace w @ evs \<and> (\<forall>ev \<in> set evs. \<exists>off bs. ev = WriteAt off bs)"
proof (induction b arbitrary: off w)
  case (EOF bs)
  then show ?case using write_buffer_events [of en bs off w r w'] by simp
next
  case (ReadFail bs err)
  obtain r1 w1 where wb: "write_buffer en bs off w = (r1, w1)" by (cases "write_buffer en bs off w")
  with ReadFail.prems have "w' = w1" by (auto split: option.splits)
  then show ?case using write_buffer_events [OF wb] by simp
next
  case (Data bs rest)
  obtain r1 w1 where wb: "write_buffer en bs off w = (r1, w1)" by (cases "write_buffer en bs off w")
  from write_buffer_events [OF wb] obtain evs1 where
    1: "trace w1 = trace w @ evs1" "\<forall>ev \<in> set evs1. \<exists>off bs. ev = WriteAt off bs" by blast
  show ?case
  proof (cases r1)
    case None
    with wb Data.prems have "stream_body en rest (advance off bs) w1 = (r, w')" by simp
    from Data.IH [OF this] obtain evs2 where
      2: "trace w' = trace w1 @ evs2" "\<forall>ev \<in> set evs2. \<exists>off bs. ev = WriteAt off bs" by blast
    show ?thesis
      using 1 2 by (intro exI [of _ "evs1 @ evs2"]) auto
  next
    case (Some e)
    with wb Data.prems have "w' = w1" by simp
    then show ?thesis using 1 by blast
  qed
qed

lemma downloadChunk_events:
  assumes "downloadChunk en chunk w = (r, w')"
  shows "\<exists>evs. trace w' = trace w @ evs \<and> (\<forall>ev \<in> set evs. fetch_event en chunk w r ev)"
proof (cases "http_NewRequest en (URL (dl w))")
  case (Some err)
  with assms have "trace w' = trace w" by (auto simp: downloadChunk_def Let_def)
  then show ?thesis by (intro exI [of _ "[]"]) simp
next
  case None
  let ?rq = "RangeRequest (URL (dl w)) (Start chunk) (End chunk)"
  show ?thesis
  proof (cases "client_Do en (URL (dl w)) (Start chunk) (End chunk)")
    case (Inl err)
    with None assms have "trace w' = trace w @ [?rq]" "r \<noteq> None"
      by (auto simp: downloadChunk_def Let_def emit_def)
    then show ?thesis by (intro exI [of _ "[?rq]"]) (simp add: fetch_event_def)
  next
    case (Inr resp)
    show ?thesis
    proof (cases "StatusCode resp = 206")
      case False
      with None Inr assms have "trace w' = trace w @ [?rq]" "r \<noteq> None"
        by (auto simp: downloadChunk_def Let_def emit_def)
      then show ?thesis by (intro exI [of _ "[?rq]"]) (simp add: fetch_event_def)
    next
      case True
      obtain r1 w1 where sb: "stream_body en (Body resp) (Start chunk) (emit ?rq w) = (r1, w1)"
        by (cases "stream_body en (Body resp) (Start chunk) (emit ?rq w)")
      with None Inr True assms have "trace w' = trace w1"
        by (auto simp: downloadChunk_def Let_def)
      moreover from stream_body_events [OF sb] obtain evs where
        "trace w1 = trace w @ ?rq # evs" "\<forall>ev \<in> set evs. \<exists>off bs. ev = WriteAt off bs"
        by (auto simp: emit_def)
      ultimately show ?thesis
        using Inr True
        by (intro exI [of _ "?rq # evs"]) (auto simp: fetch_event_def partial_content_def)
    qed
  qed
qed

lemma downloadChunk_Failed:
  assumes "downloadChunk en chunk w = (r, w')"
  shows "(Failed k c e \<in> set (trace w')) = (Failed k c e \<in> set (trace w))"
  using downloadChunk_events [OF assms] by (auto simp: fetch_event_def)

lemma downloadChunk_is_Failed:
  assumes "downloadChunk en chunk w = (r, w')"
  shows "(\<exists>ev \<in> set (trace w'). is_Failed ev) = (\<exists>ev \<in> set (trace w). is_Failed ev)"
proof -
  from downloadChunk_events [OF assms] obtain evs where
    tr: "trace w' = trace w @ evs" and ev: "\<forall>ev \<in> set evs. fetch_event en chunk w r ev" by blast
  have "\<forall>ev \<in> set evs. \<not> is_Failed ev"
    using ev by (auto simp: fetch_event_def is_Failed_def)
  then show ?thesis unfolding tr by auto
qed

lemma downloadChunk_fws:
  assumes "downloadChunk en chunk w = (r, w')"
  shows "failed_worker_stops (trace w') = failed_worker_stops (trace w)"
proof -
  from downloadChunk_events [OF assms] obtain evs where
    tr: "trace w' = trace w @ evs" and ev: "\<forall>ev \<in> set evs. fetch_event en chunk w r ev" by blast
  have "list_all (\<lambda>ev. \<not> is_Dispatched ev) evs"
    using ev by (auto simp: list_all_iff fetch_event_def is_Dispatched_def)
  then show ?thesis unfolding tr by (rule failed_worker_stops_append_quiet)
qed

lemma downloadChunk_Range:
  assumes "downloadChunk en chunk w = (r, w')"
    and "RangeRequest u s e \<in> set (trace w')"
    and "\<not> partial_content (client_Do en u s e)"
  shows "RangeRequest u s e \<in> set (trace w) \<or> r \<noteq> None"
  using downloadChunk_events [OF assms(1)] assms(2,3) by (auto simp: fetch_event_def)

lemma worker_step_cases:
  assumes "k < length (workers p)"
  obtains
    (exit) "workers p ! k = Idle" "chunkChan p = []"
      "worker_step en k p = set_worker k Exited p"
  | (dispatch) chunk rest where "workers p ! k = Idle" "chunkChan p = chunk # rest"
      "worker_step en k p = set_worker k (Fetching chunk)
         (p\<lparr>chunkChan := rest, pworld := emit (Dispatched k chunk) (pworld p)\<rparr>)"
  | (fail) chunk err w' where "workers p ! k = Fetching chunk"
      "downloadChunk en chunk (pworld p) = (Some err, w')"
      "worker_step en k p = set_worker k (Sending (ChunkFailed (Index chunk) err))
         (p\<lparr>pworld := emit (Failed k chunk err) w'\<rparr>)"
  | (finish) chunk w' where "workers p ! k = Fetching chunk"
      "downloadChunk en chunk (pworld p) = (None, w')"
      "worker_step en k p = set_worker k (if Index chunk mod 5 = 0 then Adapting else Idle)
         (p\<lparr>pworld := w'\<rparr>)"
  | (adapt) "workers p ! k = Adapting"
      "worker_step en k p = set_worker k Idle
         (p\<lparr>pworld := (pworld p)\<lparr>dl := calculateOptimalConnections (dl (pworld p))\<rparr>\<rparr>)"
  | (send) err where "workers p ! k = Sending err" "length (errChan p) < errCap p"
      "worker_step en k p = set_worker k Exited (p\<lparr>errChan := errChan p @ [err]\<rparr>)"
  | (idle) "workers p ! k = Exited \<or>
        (\<exists>err. workers p ! k = Sending err \<and> errCap p \<le> length (errChan p))"
      "worker_step en k p = p"
proof (cases "workers p ! k")
  case Idle
  then show ?thesis using exit dispatch
    by (cases "chunkChan p") (simp_all add: worker_step_def)
next
  case (Fetching chunk)
  obtain r w' where dc: "downloadChunk en chunk (pworld p) = (r, w')"
    by (cases "downloadChunk en chunk (pworld p)")
  then show ?thesis using Fetching fail finish
    by (cases r) (simp_all add: worker_step_def)
next
  case Adapting
  then show ?thesis using adapt by (simp add: worker_step_def)
next
  case (Sending err)
  then show ?thesis using send idle by (cases "length (errChan p) < errCap p") (simp_all add: worker_step_def)
next
  case Exited
  then show ?thesis using idle by (simp add: worker_step_def)
qed

lemma main_step_cases:
  obtains
    (spawn) i where "mainpc p = Spawning i"
      "main_step p = p\<lparr>workers := workers p @ [Idle], mainpc := Spawning (i + 1)\<rparr>"
  | (wait) i where "mainpc p = Spawning i" "main_step p = p\<lparr>mainpc := Waiting\<rparr>"
  | (return) "mainpc p = Waiting" "list_all (\<lambda>ws. ws = Exited) (workers p)"
      "main_step p = p\<lparr>mainpc := Returned (case errChan p of [] \<Rightarrow> None | err # _ \<Rightarrow> Some err)\<rparr>"
  | (idle) "main_step p = p"
proof (cases "mainpc p")
  case (Spawning i)
  then show ?thesis using spawn [of i] wait [of i]
    by (cases "i < CurrentConnections (dl (pworld p))") (simp_all add: main_step_def)
next
  case Waiting
  then show ?thesis using return idle
    by (cases "list_all (\<lambda>ws. ws = Exited) (workers p)") (simp_all add: main_step_def)
next
  case (Returned r)
  then show ?thesis using idle by (simp add: main_step_def)
qed

lemma pool_step_cases:
  obtains (main) "t = 0" "pool_step en p t = main_step p"
  | (worker) k where "t = Suc k" "k < length (workers p)" "pool_step en p t = worker_step en k p"
  | (idle) "pool_step en p t = p"
proof (cases t)
  case 0
  then show ?thesis using main by (simp add: pool_step_def)
next
  case (Suc k)
  then show ?thesis using worker [of k] idle
    by (cases "k < length (workers p)") (simp_all add: pool_step_def)
qed

lemma set_worker_simps [simp]:
  "workers (set_worker k ws p) = (workers p)[k := ws]"
  "pworld (set_worker k ws p) = pworld p"
  "errChan (set_worker k ws p) = errChan p"
  "errCap (set_worker k ws p) = errCap p"
  "chunkChan (set_worker k ws p) = chunkChan p"
  "mainpc (set_worker k ws p) = mainpc p"
  by (simp_all add: set_worker_def)

lemma emit_simps [simp]:
  "trace (emit ev w) = trace w @ [ev]" "dl (emit ev w) = dl w"
  by (simp_all add: emit_def)

lemma inv_stop_update:
  assumes "inv_stop p" and "k < length (workers p)"
    and "workers p' = (workers p)[k := ws]"
    and "\<And>k' c e. Failed k' c e \<in> set (trace (pworld p')) \<Longrightarrow>
           Failed k' c e \<in> set (trace (pworld p)) \<or> (k' = k \<and> stopped ws)"
    and "stopped (workers p ! k) \<Longrightarrow> stopped ws"
  shows "inv_stop p'"
  unfolding inv_stop_def
proof (intro allI impI)
  fix k' c e assume "Failed k' c e \<in> set (trace (pworld p'))"
  from assms(4) [OF this] show "k' < length (workers p') \<and> stopped (workers p' ! k')"
  proof
    assume "Failed k' c e \<in> set (trace (pworld p))"
    then have "k' < length (workers p)" "stopped (workers p ! k')"
      using assms(1) by (auto simp: inv_stop_def)
    then show ?thesis using assms(3,5) by (cases "k' = k") simp_all
  next
    assume "k' = k \<and> stopped ws"
    then show ?thesis using assms(2,3) by simp
  qed
qed

lemma inv_stop_not_failed:
  "inv_stop p \<Longrightarrow> \<not> stopped (workers p ! k) \<Longrightarrow> Failed k c e \<notin> set (trace (pworld p))"
  by (auto simp: inv_stop_def)

lemma inv_stop_main: "inv_stop p \<Longrightarrow> inv_stop (main_step p)"
proof (cases rule: main_step_cases [of p])
  case (spawn i)
  assume inv: "inv_stop p"
  show ?thesis unfolding inv_stop_def spawn(2)
  proof (intro allI impI)
    fix k c e
    assume "Failed k c e \<in> set (trace (pworld (p\<lparr>workers := workers p @ [Idle], mainpc := Spawning (i + 1)\<rparr>)))"
    then have "k < length (workers p)" "stopped (workers p ! k)"
      using inv by (auto simp: inv_stop_def)
    then show "k < length (workers (p\<lparr>workers := workers p @ [Idle], mainpc := Spawning (i + 1)\<rparr>)) \<and>
       stopped (workers (p\<lparr>workers := workers p @ [Idle], mainpc := Spawning (i + 1)\<rparr>) ! k)"
      by (simp add: nth_append)
  qed
qed (auto simp: inv_stop_def)

lemma inv_stop_worker:
  assumes "inv_stop p" "k < length (workers p)"
  shows "inv_stop (worker_step en k p)"
  using assms(2)
proof (cases rule: worker_step_cases [of k p en])
  case exit
  show ?thesis
    by (rule inv_stop_update [OF assms, of _ Exited]) (simp_all add: exit stopped_def)
next
  case (dispatch chunk rest)
  show ?thesis
    by (rule inv_stop_update [OF assms, of _ "Fetching chunk"])
      (auto simp: dispatch stopped_def)
next
  case (fail chunk err w')
  show ?thesis
    by (rule inv_stop_update [OF assms, of _ "Sending (ChunkFailed (Index chunk) err)"])
      (auto simp: fail stopped_def downloadChunk_Failed [OF fail(2)])
next
  case (finish chunk w')
  show ?thesis
    by (rule inv_stop_update [OF assms, of _ "if Index chunk mod 5 = 0 then Adapting else Idle"])
      (auto simp: finish stopped_def downloadChunk_Failed [OF finish(2)])
next
  case adapt
  show ?thesis
    by (rule inv_stop_update [OF assms, of _ Idle]) (simp_all add: adapt stopped_def)
next
  case (send err)
  show ?thesis
    by (rule inv_stop_update [OF assms, of _ Exited]) (simp_all add: send stopped_def)
next
  case idle
  then show ?thesis using assms(1) by simp
qed

lemma fws_main:
  "failed_worker_stops (trace (pworld (main_step p))) = failed_worker_stops (trace (pworld p))"
  by (cases rule: main_step_cases [of p]) auto

lemma fws_worker:
  assumes "inv_stop p" "failed_worker_stops (trace (pworld p))" "k < length (workers p)"
  shows "failed_worker_stops (trace (pworld (worker_step en k p)))"
  using assms(3)
proof (cases rule: worker_step_cases [of k p en])
  case (dispatch chunk rest)
  have "\<not> stopped (workers p ! k)" using dispatch(1) by (simp add: stopped_def)
  then have "\<forall>c e. Failed k c e \<notin> set (trace (pworld p))"
    using assms(1) by (auto dest: inv_stop_not_failed)
  then show ?thesis using assms(2) dispatch by (simp add: failed_worker_stops_snoc)
next
  case (fail chunk err w')
  then show ?thesis
    using assms(2) downloadChunk_fws [OF fail(2)] by (simp add: failed_worker_stops_snoc)
next
  case (finish chunk w')
  then show ?thesis using assms(2) downloadChunk_fws [OF finish(2)] by simp
qed (use assms in auto)

lemma inv_err_update:
  assumes "inv_err p" and "k < length (workers p)"
    and "workers p' = (workers p)[k := ws]"
    and "(\<exists>ev \<in> set (trace (pworld p')). is_Failed ev) \<Longrightarrow>
           (\<exists>ev \<in> set (trace (pworld p)). is_Failed ev) \<or> is_Sending ws \<or> errChan p' \<noteq> []"
    and "errChan p \<noteq> [] \<Longrightarrow> errChan p' \<noteq> []"
    and "is_Sending (workers p ! k) \<Longrightarrow> is_Sending ws \<or> errChan p' \<noteq> []"
  shows "inv_err p'"
  unfolding inv_err_def
proof
  assume "\<exists>ev \<in> set (trace (pworld p')). is_Failed ev"
  from assms(4) [OF this] consider
    (old) "\<exists>ev \<in> set (trace (pworld p)). is_Failed ev" | (new) "is_Sending ws \<or> errChan p' \<noteq> []"
    by blast
  then show "errChan p' \<noteq> [] \<or> (\<exists>k < length (workers p'). is_Sending (workers p' ! k))"
  proof cases
    case old
    with assms(1) consider "errChan p \<noteq> []"
      | k' where "k' < length (workers p)" "is_Sending (workers p ! k')"
      by (auto simp: inv_err_def)
    then show ?thesis
    proof cases
      case 1
      then show ?thesis using assms(5) by simp
    next
      case 2
      show ?thesis
      proof (cases "k' = k")
        case True
        with 2 assms(6) have "is_Sending ws \<or> errChan p' \<noteq> []" by simp
        then show ?thesis using assms(2,3) by (auto intro: exI [of _ k])
      next
        case False
        then show ?thesis using 2 assms(3) by (auto intro: exI [of _ k'])
      qed
    qed
  next
    case new
    then show ?thesis using assms(2,3) by (auto intro: exI [of _ k])
  qed
qed

lemma inv_err_main: "inv_err p \<Longrightarrow> inv_err (main_step p)"
proof (cases rule: main_step_cases [of p])
  case (spawn i)
  assume inv: "inv_err p"
  show ?thesis unfolding inv_err_def spawn(2)
  proof
    assume "\<exists>ev \<in> set (trace (pworld (p\<lparr>workers := workers p @ [Idle], mainpc := Spawning (i + 1)\<rparr>))). is_Failed ev"
    with inv consider "errChan p \<noteq> []"
      | k' where "k' < length (workers p)" "is_Sending (workers p ! k')"
      by (auto simp: inv_err_def)
    then show "errChan (p\<lparr>workers := workers p @ [Idle], mainpc := Spawning (i + 1)\<rparr>) \<noteq> [] \<or>
       (\<exists>k < length (workers (p\<lparr>workers := workers p @ [Idle], mainpc := Spawning (i + 1)\<rparr>)).
          is_Sending (workers (p\<lparr>workers := workers p @ [Idle], mainpc := Spawning (i + 1)\<rparr>) ! k))"
    proof cases
      case 1
      then show ?thesis by simp
    next
      case 2
      then show ?thesis by (auto simp: nth_append intro!: exI [of _ k'])
    qed
  qed
qed (auto simp: inv_err_def)

lemma inv_err_worker:
  assumes "inv_err p" "k < length (workers p)"
  shows "inv_err (worker_step en k p)"
  using assms(2)
proof (cases rule: worker_step_cases [of k p en])
  case exit
  show ?thesis
    by (rule inv_err_update [OF assms, of _ Exited]) (simp_all add: exit is_Sending_def)
next
  case (dispatch chunk rest)
  show ?thesis
    by (rule inv_err_update [OF assms, of _ "Fetching chunk"])
      (auto simp: dispatch is_Sending_def is_Failed_def)
next
  case (fail chunk err w')
  show ?thesis
    by (rule inv_err_update [OF assms, of _ "Sending (ChunkFailed (Index chunk) err)"])
      (auto simp: fail is_Sending_def)
next
  case (finish chunk w')
  show ?thesis
    by (rule inv_err_update [OF assms, of _ "if Index chunk mod 5 = 0 then Adapting else Idle"])
      (auto simp: finish is_Sending_def downloadChunk_is_Failed [OF finish(2)])
next
  case adapt
  show ?thesis
    by (rule inv_err_update [OF assms, of _ Idle]) (simp_all add: adapt is_Sending_def)
next
  case (send err)
  show ?thesis
    by (rule inv_err_update [OF assms, of _ Exited]) (simp_all add: send is_Sending_def)
next
  case idle
  then show ?thesis using assms(1) by simp
qed

lemma inv_ret_main: "inv_ret p \<Longrightarrow> inv_ret (main_step p)"
  by (cases rule: main_step_cases [of p]) (auto simp: inv_ret_def)

lemma inv_ret_worker:
  assumes "inv_ret p" "k < length (workers p)"
  shows "inv_ret (worker_step en k p)"
proof (cases "\<exists>r. mainpc p = Returned r")
  case True
  then have "list_all (\<lambda>ws. ws = Exited) (workers p)" using assms(1) by (auto simp: inv_ret_def)
  then have "workers p ! k = Exited" using assms(2) by (simp add: list_all_length)
  then have "worker_step en k p = p" by (simp add: worker_step_def)
  then show ?thesis using assms(1) by simp
next
  case False
  have "mainpc (worker_step en k p) = mainpc p"
    using assms(2) by (cases rule: worker_step_cases [of k p en]) simp_all
  then show ?thesis using False by (simp add: inv_ret_def)
qed

lemma inv_bad_main: "inv_bad en p \<Longrightarrow> inv_bad en (main_step p)"
  by (cases rule: main_step_cases [of p]) (auto simp: inv_bad_def)

lemma inv_bad_worker:
  assumes "inv_bad en p" "k < length (workers p)"
  shows "inv_bad en (worker_step en k p)"
  using assms(2)
proof (cases rule: worker_step_cases [of k p en])
  case (dispatch chunk rest)
  then show ?thesis using assms(1) by (auto simp: inv_bad_def)
next
  case (fail chunk err w')
  then show ?thesis by (auto simp: inv_bad_def is_Failed_def)
next
  case (finish chunk w')
  show ?thesis unfolding inv_bad_def
  proof (intro allI impI)
    fix u s e
    assume "RangeRequest u s e \<in> set (trace (pworld (worker_step en k p)))"
      and bad: "\<not> partial_content (client_Do en u s e)"
    then have "RangeRequest u s e \<in> set (trace w')" by (simp add: finish)
    from downloadChunk_Range [OF finish(2) this bad]
    have "RangeRequest u s e \<in> set (trace (pworld p))" by simp
    with assms(1) bad have "\<exists>ev \<in> set (trace (pworld p)). is_Failed ev"
      by (auto simp: inv_bad_def)
    then show "\<exists>ev \<in> set (trace (pworld (worker_step en k p))). is_Failed ev"
      using downloadChunk_is_Failed [OF finish(2)] by (simp add: finish)
  qed
qed (use assms(1) in \<open>auto simp: inv_bad_def\<close>)

lemma pool_inv_step: "pool_inv en p \<Longrightarrow> pool_inv en (pool_step en p t)"
proof (cases rule: pool_step_cases [of t en p])
  case main
  assume "pool_inv en p"
  then show ?thesis unfolding pool_inv_def main(2)
    by (simp add: inv_stop_main fws_main inv_err_main inv_ret_main inv_bad_main)
next
  case (worker k)
  assume "pool_inv en p"
  then show ?thesis unfolding pool_inv_def worker(3)
    using worker(2)
    by (simp add: inv_stop_worker fws_worker inv_err_worker inv_ret_worker inv_bad_worker)
next
  case idle
  assume "pool_inv en p"
  then show ?thesis by (simp add: idle)
qed

lemma pool_inv_exec: "pool_inv en p \<Longrightarrow> pool_inv en (pool_exec en sched p)"
  unfolding pool_exec_def
  by (induction sched arbitrary: p) (simp_all add: pool_inv_step)

lemma pool_inv_init:
  assumes "\<forall>ev \<in> set (trace w). \<not> is_Failed ev \<and> \<not> is_Dispatched ev \<and> (\<forall>u s e. ev \<noteq> RangeRequest u s e)"
  shows "pool_inv en (pool_init w chunks)"
proof -
  have "list_all (\<lambda>ev. \<not> is_Dispatched ev) (trace w)" using assms by (simp add: list_all_iff)
  from failed_worker_stops_append_quiet [OF this, of "[]"]
  have "failed_worker_stops (trace w)" by simp
  moreover have "\<And>k c e. Failed k c e \<notin> set (trace w)"
    using assms by (auto simp: is_Failed_def)
  ultimately show ?thesis using assms
    by (auto simp: pool_inv_def pool_init_def inv_stop_def inv_err_def inv_ret_def inv_bad_def)
qed

lemma pool_inv_returned:
  assumes "pool_inv en p" "mainpc p = Returned r" "\<exists>ev \<in> set (trace (pworld p)). is_Failed ev"
  shows "\<exists>err. r = Some err"
proof -
  from assms(1,2) have ex: "list_all (\<lambda>ws. ws = Exited) (workers p)"
    and r: "r = (case errChan p of [] \<Rightarrow> None | err # _ \<Rightarrow> Some err)"
    by (auto simp: pool_inv_def inv_ret_def)
  have "\<not> (\<exists>k < length (workers p). is_Sending (workers p ! k))"
    using ex by (auto simp: list_all_length is_Sending_def)
  with assms(1,3) have "errChan p \<noteq> []" by (auto simp: pool_inv_def inv_err_def)
  then show ?thesis using r by (cases "errChan p") simp_all
qed

lemma append_buffer_events:
  "append_buffer en bs w = (r, w') \<Longrightarrow>
   \<exists>evs. trace w' = trace w @ evs \<and> (\<forall>ev \<in> set evs. \<exists>bs. ev = WriteSeq bs)"
  by (auto simp: append_buffer_def emit_def add_bytes_def split: write_result.splits if_splits)

lemma copy_body_events:
  "copy_body en b w = (r, w') \<Longrightarrow>
   \<exists>evs. trace w' = trace w @ evs \<and> (\<forall>ev \<in> set evs. \<exists>bs. ev = WriteSeq bs)"
proof (induction b arbitrary: w)
  case (EOF bs)
  then show ?case using append_buffer_events [of en bs w r w'] by simp
next
  case (ReadFail bs err)
  obtain r1 w1 where ab: "append_buffer en bs w = (r1, w1)" by (cases "append_buffer en bs w")
  with ReadFail.prems have "w' = w1" by (auto split: option.splits)
  then show ?case using append_buffer_events [OF ab] by simp
next
  case (Data bs rest)
  obtain r1 w1 where ab: "append_buffer en bs w = (r1, w1)" by (cases "append_buffer en bs w")
  from append_buffer_events [OF ab] obtain evs1 where
    1: "trace w1 = trace w @ evs1" "\<forall>ev \<in> set evs1. \<exists>bs. ev = WriteSeq bs" by blast
  show ?case
  proof (cases r1)
    case None
    with ab Data.prems have "copy_body en rest w1 = (r, w')" by simp
    from Data.IH [OF this] obtain evs2 where
      2: "trace w' = trace w1 @ evs2" "\<forall>ev \<in> set evs2. \<exists>bs. ev = WriteSeq bs" by blast
    show ?thesis
      using 1 2 by (intro exI [of _ "evs1 @ evs2"]) auto
  next
    case (Some e)
    with ab Data.prems have "w' = w1" by simp
    then show ?thesis using 1 by blast
  qed
qed

lemma downloadSingleConnection_quiet:
  assumes "downloadSingleConnection en w = (r, w')" "\<forall>ev \<in> set (trace w). quiet ev"
  shows "\<forall>ev \<in> set (trace w'). quiet ev"
proof (cases "os_Create en (Filename (dl w))")
  case (Some err)
  with assms show ?thesis by (simp add: downloadSingleConnection_def)
next
  case None
  let ?w1 = "emit (GetRequest (URL (dl w))) (emit (CreateFile (Filename (dl w))) w)"
  have q1: "\<forall>ev \<in> set (trace ?w1). quiet ev"
    using assms(2) by (auto simp: quiet_def is_Failed_def is_Dispatched_def)
  show ?thesis
  proof (cases "client_Get en (URL (dl w))")
    case (Inl err)
    with None assms(1) have "w' = ?w1" by (simp add: downloadSingleConnection_def Let_def)
    then show ?thesis using q1 by simp
  next
    case (Inr resp)
    show ?thesis
    proof (cases "StatusCode resp = 200")
      case False
      with None Inr assms(1) have "w' = ?w1" by (simp add: downloadSingleConnection_def Let_def)
      then show ?thesis using q1 by simp
    next
      case True
      obtain r1 w1 where cb: "copy_body en (Body resp) ?w1 = (r1, w1)"
        by (cases "copy_body en (Body resp) ?w1")
      with None Inr True assms(1) have "w' = w1"
        by (auto simp: downloadSingleConnection_def Let_def split: option.splits)
      moreover from copy_body_events [OF cb] obtain evs where
        "trace w1 = trace ?w1 @ evs" "\<forall>ev \<in> set evs. \<exists>bs. ev = WriteSeq bs" by blast
      ultimately show ?thesis using q1
        by (auto simp: quiet_def is_Failed_def is_Dispatched_def)
    qed
  qed
qed

lemma getFileSize_quiet:
  assumes "getFileSize en \<lparr>dl = d, trace = []\<rparr> = (r, w)"
  shows "\<forall>ev \<in> set (trace w). quiet ev"
  using getFileSize_facts(1) [OF assms]
  by (simp add: quiet_def is_Failed_def is_Dispatched_def)

lemma Download_cases:
  obtains
    (sequential) "\<exists>r. fst (Download en sched d) = Some r"
      "\<forall>ev \<in> set (trace (snd (Download en sched d))). quiet ev"
  | (diverges) "fst (Download en sched d) = None"
      "\<forall>ev \<in> set (trace (snd (Download en sched d))). quiet ev"
  | (pool) p where "pool_inv en p" "snd (Download en sched d) = pworld p"
      "fst (Download en sched d) = (case mainpc p of Returned r \<Rightarrow> Some r | _ \<Rightarrow> None)"
proof -
  obtain r0 w where gf: "getFileSize en \<lparr>dl = d, trace = []\<rparr> = (r0, w)"
    by (cases "getFileSize en \<lparr>dl = d, trace = []\<rparr>")
  have qw: "\<forall>ev \<in> set (trace w). quiet ev" using gf by (rule getFileSize_quiet)
  show ?thesis
  proof (cases r0)
    case (Inl err)
    then show ?thesis using sequential gf qw by (simp add: Download_def)
  next
    case (Inr supportsRanges)
    show ?thesis
    proof (cases supportsRanges)
      case False
      obtain r1 w1 where ds: "downloadSingleConnection en w = (r1, w1)"
        by (cases "downloadSingleConnection en w")
      from downloadSingleConnection_quiet [OF ds qw] show ?thesis
        using sequential gf Inr False ds by (cases r1) (simp_all add: Download_def)
    next
      case True
      show ?thesis
      proof (cases "os_Create en (Filename (dl w))")
        case (Some err)
        then show ?thesis using sequential gf Inr True qw by (simp add: Download_def)
      next
        case None
        let ?w1 = "emit (CreateFile (Filename (dl w))) w"
        have q1: "\<forall>ev \<in> set (trace ?w1). quiet ev"
          using qw by (auto simp: quiet_def is_Failed_def is_Dispatched_def)
        show ?thesis
        proof (cases "file_Truncate en (FileSize (dl w))")
          case (Some err)
          then show ?thesis using sequential gf Inr True None q1
            by (simp add: Download_def Let_def)
        next
          case trunc: None
          let ?w2 = "emit (TruncateFile (FileSize (dl w))) ?w1"
          have q2: "\<forall>ev \<in> set (trace ?w2). quiet ev"
            using qw by (auto simp: quiet_def is_Failed_def is_Dispatched_def)
          show ?thesis
          proof (cases "createChunks (FileSize (dl w)) (ChunkSize (dl w)) 0 []")
            case plan: None
            then show ?thesis using diverges gf Inr True None trunc q2
              by (simp add: Download_def Let_def)
          next
            case (Some chunks)
            show ?thesis
            proof (cases "CurrentConnections (dl w) < 0")
              case neg: True
              then show ?thesis using sequential gf Inr True None trunc Some q2
                by (simp add: Download_def Let_def)
            next
              case False
              let ?p = "pool_exec en sched (pool_init ?w2 chunks)"
              have "pool_inv en (pool_init ?w2 chunks)"
                using q2 by (intro pool_inv_init) (simp add: quiet_def)
              then have inv: "pool_inv en ?p" by (rule pool_inv_exec)
              have "Download en sched d =
                  (case mainpc ?p of Returned r \<Rightarrow> (Some r, pworld ?p) | _ \<Rightarrow> (None, pworld ?p))"
                using gf Inr True None trunc Some False by (simp add: Download_def Let_def)
              then have "snd (Download en sched d) = pworld ?p"
                "fst (Download en sched d) = (case mainpc ?p of Returned r \<Rightarrow> Some r | _ \<Rightarrow> None)"
                by (simp_all split: mstate.splits)
              with inv show ?thesis by (rule pool)
            qed
          qed
        qed
      qed
    qed
  qed
qed

text \<open>
  What holds of a fetch that is not answered with 206, on every schedule: the fetch
  returns the status error, writes nothing and leaves the byte counter alone; and
  whenever \<^verbatim>\<open>Download\<close> returns after such a fetch, it returns an error, whatever the
  other segments did.
\<close>

lemma not_partial_content_fatal:
  "(http_NewRequest en (URL (dl w)) = None \<and>
    client_Do en (URL (dl w)) (Start chunk) (End chunk) = Inr resp \<and>
    StatusCode resp \<noteq> 206 \<longrightarrow>
      fst (downloadChunk en chunk w) = Some (StatusError (StatusCode resp)) \<and>
      writes_at (trace (snd (downloadChunk en chunk w))) = writes_at (trace w) \<and>
      BytesDownloaded (Stats (dl (snd (downloadChunk en chunk w)))) =
        BytesDownloaded (Stats (dl w))) \<and>
   (fst (Download en sched d) = Some r \<and>
    RangeRequest u s e \<in> set (trace (snd (Download en sched d))) \<and>
    client_Do en u s e = Inr resp' \<and> StatusCode resp' \<noteq> 206 \<longrightarrow>
      (\<exists>err. r = Some err))"
proof (intro conjI impI)
  assume a: "http_NewRequest en (URL (dl w)) = None \<and>
    client_Do en (URL (dl w)) (Start chunk) (End chunk) = Inr resp \<and> StatusCode resp \<noteq> 206"
  then have dc: "downloadChunk en chunk w =
           (Some (StatusError (StatusCode resp)),
            record_duration (since en chunk)
              (emit (RangeRequest (URL (dl w)) (Start chunk) (End chunk)) w))"
    by (intro downloadChunk_not_206) simp_all
  show "fst (downloadChunk en chunk w) = Some (StatusError (StatusCode resp))"
    by (simp add: dc)
  show "writes_at (trace (snd (downloadChunk en chunk w))) = writes_at (trace w)"
    by (simp add: dc writes_at_append)
  show "BytesDownloaded (Stats (dl (snd (downloadChunk en chunk w)))) =
        BytesDownloaded (Stats (dl w))"
    by (simp add: dc record_duration_def)
next
  assume b: "fst (Download en sched d) = Some r \<and>
    RangeRequest u s e \<in> set (trace (snd (Download en sched d))) \<and>
    client_Do en u s e = Inr resp' \<and> StatusCode resp' \<noteq> 206"
  then have bad: "\<not> partial_content (client_Do en u s e)" by (simp add: partial_content_def)
  show "\<exists>err. r = Some err"
  proof (cases rule: Download_cases [of en sched d])
    case sequential
    with b show ?thesis by (auto simp: quiet_def)
  next
    case diverges
    with b show ?thesis by simp
  next
    case (pool p)
    from b pool(2) have "RangeRequest u s e \<in> set (trace (pworld p))" by simp
    with pool(1) bad have f: "\<exists>ev \<in> set (trace (pworld p)). is_Failed ev"
      by (auto simp: pool_inv_def inv_bad_def)
    from b pool(3) have "mainpc p = Returned r" by (auto split: mstate.splits)
    with pool(1) show ?thesis using f by (rule pool_inv_returned)
  qed
qed

lemma quiet_failed_worker_stops:
  "\<forall>ev \<in> set tr. quiet ev \<Longrightarrow> failed_worker_stops tr"
  using failed_worker_stops_append_quiet [of tr "[]"]
  by (simp add: list_all_iff quiet_def)

text \<open>
  C7, as the code has it, on every schedule: a worker whose fetch has failed is
  dispatched no further segment (the other workers go on taking segments from the
  channel); and whenever \<^verbatim>\<open>Download\<close> returns after a failed fetch, it returns an error.
\<close>

theorem C7_failed_worker_stops:
  "failed_worker_stops (trace (snd (Download en sched d))) \<and>
   (fst (Download en sched d) = Some r \<and>
    (\<exists>ev \<in> set (trace (snd (Download en sched d))). is_Failed ev) \<longrightarrow>
      (\<exists>err. r = Some err))"
proof (cases rule: Download_cases [of en sched d])
  case sequential
  from quiet_failed_worker_stops [OF sequential(2)] sequential(2)
  show ?thesis by (auto simp: quiet_def)
next
  case diverges
  from quiet_failed_worker_stops [OF diverges(2)] diverges(1)
  show ?thesis by simp
next
  case (pool p)
  have 1: "failed_worker_stops (trace (snd (Download en sched d)))"
    using pool(1,2) by (simp add: pool_inv_def)
  have 2: "fst (Download en sched d) = Some r \<and>
    (\<exists>ev \<in> set (trace (snd (Download en sched d))). is_Failed ev) \<longrightarrow> (\<exists>err. r = Some err)"
  proof
    assume b: "fst (Download en sched d) = Some r \<and>
      (\<exists>ev \<in> set (trace (snd (Download en sched d))). is_Failed ev)"
    with pool(3) have "mainpc p = Returned r" by (auto split: mstate.splits)
    with pool(1) show "\<exists>err. r = Some err"
      using b pool(2) by (intro pool_inv_returned [of en p r]) simp_all
  qed
  from 1 2 show ?thesis ..
qed

lemma createChunks_3MiB:
  "createChunks 3145728 1048576 0 [] =
     Some [\<lparr>Start = 0, End = 1048575, Index = 0\<rparr>, \<lparr>Start = 1048576, End = 2097151, Index = 1\<rparr>,
           \<lparr>Start = 2097152, End = 3145727, Index = 2\<rparr>]"
  by (subst createChunks.simps, simp add: wrap64_def)+

text \<open>
  A run of the pool against the first example server: worker 0 takes segment 0 and
  worker 1 segment 1; the fetch of segment 0 fails and worker 0 sends its error and
  exits; worker 1 finishes segment 1 and then takes segment 2.
\<close>

lemma race_run:
  "Download race_env race_schedule (NewAdaptiveDownloader ''u'' ''f'' 0) =
     (Some (Some (ChunkFailed 0 (StatusError 200))),
      \<lparr>dl = (NewAdaptiveDownloader ''u'' ''f'' 0)
          \<lparr>FileSize := 3145728,
           Stats := \<lparr>BytesDownloaded = 2, StartTime = 0,
                      ChunkTimes = [1000000000, 1000000000, 1000000000]\<rparr>\<rparr>,
       trace = [HeadRequest ''u'', CreateFile ''f'', TruncateFile 3145728,
                Dispatched 0 \<lparr>Start = 0, End = 1048575, Index = 0\<rparr>,
                Dispatched 1 \<lparr>Start = 1048576, End = 2097151, Index = 1\<rparr>,
                RangeRequest ''u'' 0 1048575,
                Failed 0 \<lparr>Start = 0, End = 1048575, Index = 0\<rparr> (StatusError 200),
                RangeRequest ''u'' 1048576 2097151, WriteAt 1048576 [7],
                Dispatched 1 \<lparr>Start = 2097152, End = 3145727, Index = 2\<rparr>,
                RangeRequest ''u'' 2097152 3145727, WriteAt 2097152 [7]]\<rparr>)"
  by (simp add: Download_def getFileSize_def race_env_def quiet_env_def ranged_head_def
      NewAdaptiveDownloader_def Header_Get_def ParseInt_def digit_def emit_def
      createChunks_3MiB pool_init_def pool_exec_def race_schedule_def pool_step_def
      main_step_def worker_step_def set_worker_def downloadChunk_def write_buffer_def
      os_File_WriteAt_def add_bytes_def record_duration_def wrap64_def Second_def Let_def)

text \<open>
  The theorem on that run: the trace satisfies the property and the result is the error
  of segment 0.
\<close>

theorem C7_failed_worker_stops_witness:
  "failed_worker_stops
     (trace (snd (Download race_env race_schedule (NewAdaptiveDownloader ''u'' ''f'' 0)))) \<and>
   fst (Download race_env race_schedule (NewAdaptiveDownloader ''u'' ''f'' 0)) =
     Some (Some (ChunkFailed 0 (StatusError 200)))"
  using C7_failed_worker_stops [of race_env race_schedule "NewAdaptiveDownloader ''u'' ''f'' 0"
      "Some (ChunkFailed 0 (StatusError 200))"]
  by (simp add: race_run)

text \<open>
  C7 as the claim words it fails on that run: segment 2 is dispatched to worker 1 after
  the fetch of segment 0 has failed.
\<close>

theorem C7_dispatch_after_failure_counterexample:
  "\<not> no_dispatch_after_failure
      (trace (snd (Download race_env race_schedule (NewAdaptiveDownloader ''u'' ''f'' 0))))"
  by (simp add: race_run)

lemma createChunks_11MiB:
  "createChunks 11534336 1048576 0 [] =
     Some (map (chunk_at 11534336 1048576) [0..<11])"
  using createChunks_plan [of 11534336 1048576] by (simp add: chunk_count_def)

lemma stuck_step: "stuck p \<Longrightarrow> pool_step en p t = p"
proof (cases rule: pool_step_cases [of t en p])
  case main
  assume "stuck p"
  then show ?thesis unfolding main(2) by (simp add: stuck_def main_step_def)
next
  case (worker k)
  assume "stuck p"
  then have "workers p ! k = Exited \<or> is_Sending (workers p ! k)" "errCap p \<le> length (errChan p)"
    using worker(2) by (simp_all add: stuck_def list_all_length)
  then show ?thesis unfolding worker(3)
    by (cases "workers p ! k") (simp_all add: worker_step_def is_Sending_def)
qed

lemma stuck_exec: "stuck p \<Longrightarrow> pool_exec en sched p = p"
  unfolding pool_exec_def by (induction sched) (simp_all add: stuck_step)

lemma pool_exec_append:
  "pool_exec en (xs @ ys) p = pool_exec en ys (pool_exec en xs p)"
  by (simp add: pool_exec_def)

text \<open>
  As long as the pool is no larger than the error channel, every step of a worker that
  has not exited makes progress, so the pool can always be run to the end; and a
  schedule that lets the main goroutine finish its spawn loop first makes the pool
  exactly as large as the channel. On the range path \<^verbatim>\<open>Download\<close> therefore returns on
  some schedule, whatever the server and the disk do.
\<close>

lemma sum_list_map_update:
  fixes f :: "'a \<Rightarrow> nat"
  assumes "k < length xs"
  shows "sum_list (map f (xs[k := y])) + f (xs ! k) = sum_list (map f xs) + f y"
  using assms
proof (induction xs arbitrary: k)
  case Nil
  then show ?case by simp
next
  case (Cons x xs)
  then show ?case by (cases k) auto
qed

lemma alive_pos:
  assumes "k < length xs" "xs ! k \<noteq> Exited"
  shows "0 < sum_list (map alive xs)"
proof -
  have "alive (xs ! k) \<in> set (map alive xs)" using assms(1) by simp
  then have "alive (xs ! k) \<le> sum_list (map alive xs)" by (rule member_le_sum_list) simp_all
  then show ?thesis using assms(2) by (simp add: alive_def)
qed

lemma worker_progress:
  assumes k: "k < length (workers p)" and live: "workers p ! k \<noteq> Exited" and room: "room p"
  shows "work_left (worker_step en k p) < work_left p \<and> room (worker_step en k p) \<and>
         mainpc (worker_step en k p) = mainpc p"
proof -
  note r = sum_list_map_update [OF k, of rank] and a = sum_list_map_update [OF k, of alive]
  from k show ?thesis
  proof (cases rule: worker_step_cases [of k p en])
    case exit
    then show ?thesis using r [of Exited] a [of Exited] room
      by (simp add: work_left_def room_def alive_def)
  next
    case (dispatch chunk rest)
    then show ?thesis using r [of "Fetching chunk"] a [of "Fetching chunk"] room
      by (simp add: work_left_def room_def alive_def)
  next
    case (fail chunk err w')
    then show ?thesis
      using r [of "Sending (ChunkFailed (Index chunk) err)"]
        a [of "Sending (ChunkFailed (Index chunk) err)"] room
      by (simp add: work_left_def room_def alive_def)
  next
    case (finish chunk w')
    show ?thesis
    proof (cases "Index chunk mod 5 = 0")
      case True
      then show ?thesis using finish r [of Adapting] a [of Adapting] room
        by (simp add: work_left_def room_def alive_def)
    next
      case False
      then show ?thesis using finish r [of Idle] a [of Idle] room
        by (simp add: work_left_def room_def alive_def)
    qed
  next
    case adapt
    then show ?thesis using r [of Idle] a [of Idle] room
      by (simp add: work_left_def room_def alive_def)
  next
    case (send err)
    then show ?thesis using r [of Exited] a [of Exited] room
      by (simp add: work_left_def room_def alive_def)
  next
    case idle
    have "0 < sum_list (map alive (workers p))" using k live by (rule alive_pos)
    then have "length (errChan p) < errCap p" using room by (simp add: room_def)
    with idle(1) live have False by auto
    then show ?thesis ..
  qed
qed

lemma pool_exec_Cons: "pool_exec en (t # sched) p = pool_exec en sched (pool_step en p t)"
  by (simp add: pool_exec_def)

lemma pool_can_finish:
  assumes "mainpc p = Waiting" and "room p"
  shows "\<exists>sched r. mainpc (pool_exec en sched p) = Returned r"
  using assms
proof (induction "work_left p" arbitrary: p rule: less_induct)
  case less
  show ?case
  proof (cases "list_all (\<lambda>ws. ws = Exited) (workers p)")
    case True
    with less.prems(1) have "\<exists>r. mainpc (pool_exec en [0] p) = Returned r"
      by (simp add: pool_exec_def pool_step_def main_step_def)
    then show ?thesis by blast
  next
    case False
    then obtain k where k: "k < length (workers p)" "workers p ! k \<noteq> Exited"
      by (auto simp: list_all_length)
    let ?q = "worker_step en k p"
    from worker_progress [OF k less.prems(2), of en]
    have q: "work_left ?q < work_left p" "room ?q" "mainpc ?q = Waiting"
      using less.prems(1) by simp_all
    from less.hyps [OF q(1) q(3) q(2)] obtain sched r where
      "mainpc (pool_exec en sched ?q) = Returned r" by blast
    moreover have "pool_step en p (Suc k) = ?q" using k(1) by (simp add: pool_step_def)
    ultimately have "mainpc (pool_exec en (Suc k # sched) p) = Returned r"
      by (simp add: pool_exec_Cons)
    then show ?thesis by blast
  qed
qed

lemma spawn_all:
  assumes "mainpc p = Spawning (int i)" and "workers p = replicate i Idle"
    and "int (i + j) = CurrentConnections (dl (pworld p))"
  shows "pool_exec en (replicate j 0) p =
           p\<lparr>workers := replicate (i + j) Idle, mainpc := Spawning (int (i + j))\<rparr>"
  using assms
proof (induction j arbitrary: p i)
  case 0
  then show ?case by (simp add: pool_exec_def)
next
  case (Suc j)
  let ?q = "p\<lparr>workers := workers p @ [Idle], mainpc := Spawning (int i + 1)\<rparr>"
  have lt: "int i < CurrentConnections (dl (pworld p))" using Suc.prems(3) by linarith
  have step: "pool_step en p 0 = ?q"
    using Suc.prems(1) lt by (simp add: pool_step_def main_step_def)
  have "pool_exec en (replicate j 0) ?q =
      ?q\<lparr>workers := replicate (Suc i + j) Idle, mainpc := Spawning (int (Suc i + j))\<rparr>"
    using Suc.prems by (intro Suc.IH) (simp_all add: replicate_append_same)
  then show ?case by (simp add: pool_exec_Cons step)
qed

lemma pool_init_can_finish:
  assumes "0 \<le> CurrentConnections (dl w)"
  shows "\<exists>sched r. mainpc (pool_exec en sched (pool_init w chunks)) = Returned r"
proof -
  let ?n = "nat (CurrentConnections (dl w))"
  let ?p = "pool_init w chunks"
  let ?q = "?p\<lparr>workers := replicate ?n Idle, mainpc := Spawning (int ?n)\<rparr>"
  have "pool_exec en (replicate ?n 0) ?p = ?q"
    using spawn_all [of ?p 0 ?n en] assms by (simp add: pool_init_def)
  moreover have "pool_step en ?q 0 = ?q\<lparr>mainpc := Waiting\<rparr>"
    using assms by (simp add: pool_step_def main_step_def pool_init_def)
  ultimately have w: "pool_exec en (replicate ?n 0 @ [0]) ?p = ?q\<lparr>mainpc := Waiting\<rparr>"
    by (simp add: pool_exec_def)
  have "sum_list (map alive (replicate ?n Idle)) = ?n"
    by (induction ?n) (simp_all add: alive_def sum_list_replicate)
  then have "room (?q\<lparr>mainpc := Waiting\<rparr>)" by (simp add: room_def pool_init_def)
  from pool_can_finish [OF _ this, of en] obtain sched r where
    "mainpc (pool_exec en sched (?q\<lparr>mainpc := Waiting\<rparr>)) = Returned r" by auto
  then have "mainpc (pool_exec en ((replicate ?n 0 @ [0]) @ sched) ?p) = Returned r"
    using w by (simp only: pool_exec_append [of en "replicate ?n 0 @ [0]" sched])
  then show ?thesis by blast
qed

lemma Download_can_return:
  assumes "getFileSize en \<lparr>dl = d, trace = []\<rparr> = (Inr True, w)"
    and "os_Create en (Filename (dl w)) = None"
    and "file_Truncate en (FileSize (dl w)) = None"
    and "createChunks (FileSize (dl w)) (ChunkSize (dl w)) 0 [] = Some chunks"
  shows "\<exists>sched r. fst (Download en sched d) = Some r"
proof (cases "CurrentConnections (dl w) < 0")
  case True
  then show ?thesis using assms by (simp add: Download_def Let_def)
next
  case False
  let ?w2 = "emit (TruncateFile (FileSize (dl w))) (emit (CreateFile (Filename (dl w))) w)"
  have "0 \<le> CurrentConnections (dl ?w2)" using False by simp
  from pool_init_can_finish [OF this, of en chunks] obtain sched r where
    "mainpc (pool_exec en sched (pool_init ?w2 chunks)) = Returned r" by blast
  then have "fst (Download en sched d) = Some r"
    using assms False by (simp add: Download_def Let_def del: emit_simps)
  then show ?thesis by blast
qed

lemma chunks_11MiB:
  "map (chunk_at 11534336 1048576) [0..<11] =
     [\<lparr>Start = 0, End = 1048575, Index = 0\<rparr>, \<lparr>Start = 1048576, End = 2097151, Index = 1\<rparr>,
      \<lparr>Start = 2097152, End = 3145727, Index = 2\<rparr>, \<lparr>Start = 3145728, End = 4194303, Index = 3\<rparr>,
      \<lparr>Start = 4194304, End = 5242879, Index = 4\<rparr>, \<lparr>Start = 5242880, End = 6291455, Index = 5\<rparr>,
      \<lparr>Start = 6291456, End = 7340031, Index = 6\<rparr>, \<lparr>Start = 7340032, End = 8388607, Index = 7\<rparr>,
      \<lparr>Start = 8388608, End = 9437183, Index = 8\<rparr>, \<lparr>Start = 9437184, End = 10485759, Index = 9\<rparr>,
      \<lparr>Start = 10485760, End = 11534335, Index = 10\<rparr>]"
  by (simp add: chunk_at_def upt_rec)

lemma stall_prefix:
  "mainpc (pool_exec stall_env stall_schedule
       (pool_init stall_world (map (chunk_at 11534336 1048576) [0..<11]))) = Waiting \<and>
   workers (pool_exec stall_env stall_schedule
       (pool_init stall_world (map (chunk_at 11534336 1048576) [0..<11]))) =
     [Exited, Exited, Exited, Exited, Sending (ChunkFailed 10 (StatusError 200))] \<and>
   errChan (pool_exec stall_env stall_schedule
       (pool_init stall_world (map (chunk_at 11534336 1048576) [0..<11]))) =
     [ChunkFailed 6 (StatusError 200), ChunkFailed 7 (StatusError 200),
      ChunkFailed 8 (StatusError 200), ChunkFailed 9 (StatusError 200)] \<and>
   errCap (pool_exec stall_env stall_schedule
       (pool_init stall_world (map (chunk_at 11534336 1048576) [0..<11]))) = 4 \<and>
   CurrentConnections (dl (pworld (pool_exec stall_env stall_schedule
       (pool_init stall_world (map (chunk_at 11534336 1048576) [0..<11]))))) = 5 \<and>
   filter is_Failed (trace (pworld (pool_exec stall_env stall_schedule
       (pool_init stall_world (map (chunk_at 11534336 1048576) [0..<11]))))) =
     [Failed 0 \<lparr>Start = 6291456, End = 7340031, Index = 6\<rparr> (StatusError 200),
      Failed 1 \<lparr>Start = 7340032, End = 8388607, Index = 7\<rparr> (StatusError 200),
      Failed 2 \<lparr>Start = 8388608, End = 9437183, Index = 8\<rparr> (StatusError 200),
      Failed 3 \<lparr>Start = 9437184, End = 10485759, Index = 9\<rparr> (StatusError 200),
      Failed 4 \<lparr>Start = 10485760, End = 11534335, Index = 10\<rparr> (StatusError 200)]"
  unfolding chunks_11MiB
  by (simp add: stall_world_def stall_env_def quiet_env_def
      NewAdaptiveDownloader_def emit_def
      pool_init_def pool_exec_def stall_schedule_def pool_step_def
      main_step_def worker_step_def set_worker_def downloadChunk_def write_buffer_def
      os_File_WriteAt_def add_bytes_def record_duration_def wrap64_def Second_def Let_def
      calculateOptimalConnections_def totalTime_def quo_def is_Failed_def)

lemma stall_probe:
  "getFileSize stall_env \<lparr>dl = NewAdaptiveDownloader ''u'' ''f'' 0, trace = []\<rparr> =
     (Inr True, \<lparr>dl = (NewAdaptiveDownloader ''u'' ''f'' 0)\<lparr>FileSize := 11534336\<rparr>,
                 trace = [HeadRequest ''u'']\<rparr>)"
  by (simp add: getFileSize_def stall_env_def quiet_env_def ranged_head_def
      NewAdaptiveDownloader_def Header_Get_def ParseInt_def digit_def emit_def)

lemma stall_Download:
  "Download stall_env sched (NewAdaptiveDownloader ''u'' ''f'' 0) =
     (case mainpc (pool_exec stall_env sched
                (pool_init stall_world (map (chunk_at 11534336 1048576) [0..<11]))) of
        Returned r \<Rightarrow> (Some r, pworld (pool_exec stall_env sched
                (pool_init stall_world (map (chunk_at 11534336 1048576) [0..<11]))))
      | _ \<Rightarrow> (None, pworld (pool_exec stall_env sched
                (pool_init stall_world (map (chunk_at 11534336 1048576) [0..<11])))))"
proof -
  have c: "\<And>f. os_Create stall_env f = None" "\<And>n. file_Truncate stall_env n = None"
    by (simp_all add: stall_env_def quiet_env_def)
  have f: "Filename (NewAdaptiveDownloader ''u'' ''f'' 0) = ''f''"
    "ChunkSize (NewAdaptiveDownloader ''u'' ''f'' 0) = 1048576"
    "CurrentConnections (NewAdaptiveDownloader ''u'' ''f'' 0) = 4"
    by (simp_all add: NewAdaptiveDownloader_def)
  have w: "emit (TruncateFile 11534336) (emit (CreateFile ''f'')
        \<lparr>dl = (NewAdaptiveDownloader ''u'' ''f'' 0)\<lparr>FileSize := 11534336\<rparr>,
         trace = [HeadRequest ''u'']\<rparr>) = stall_world"
    by (simp add: emit_def stall_world_def)
  show ?thesis
    unfolding Download_def stall_probe
    by (simp add: c f w createChunks_11MiB Let_def del: emit_simps)
qed

text \<open>
  C5 on the second example server. The error channel was made for 4 errors, the spawn
  loop started 5 workers, and each of the 5 is answered with status 200: five fetches
  fail, four errors fill the channel, the fifth worker blocks on its send,
  \<^verbatim>\<open>wg.Wait()\<close> never returns, and neither does \<^verbatim>\<open>Download\<close>, however the run goes on.
\<close>

theorem C5_error_channel_deadlock:
  "fst (Download stall_env (stall_schedule @ rest) (NewAdaptiveDownloader ''u'' ''f'' 0)) = None \<and>
   filter is_Failed
     (trace (snd (Download stall_env (stall_schedule @ rest)
        (NewAdaptiveDownloader ''u'' ''f'' 0)))) =
     [Failed 0 \<lparr>Start = 6291456, End = 7340031, Index = 6\<rparr> (StatusError 200),
      Failed 1 \<lparr>Start = 7340032, End = 8388607, Index = 7\<rparr> (StatusError 200),
      Failed 2 \<lparr>Start = 8388608, End = 9437183, Index = 8\<rparr> (StatusError 200),
      Failed 3 \<lparr>Start = 9437184, End = 10485759, Index = 9\<rparr> (StatusError 200),
      Failed 4 \<lparr>Start = 10485760, End = 11534335, Index = 10\<rparr> (StatusError 200)]"
proof -
  let ?p = "pool_exec stall_env stall_schedule
       (pool_init stall_world (map (chunk_at 11534336 1048576) [0..<11]))"
  have "stuck ?p" using stall_prefix by (simp add: stuck_def is_Sending_def)
  then have "pool_exec stall_env rest ?p = ?p" by (rule stuck_exec)
  then have run: "pool_exec stall_env (stall_schedule @ rest)
       (pool_init stall_world (map (chunk_at 11534336 1048576) [0..<11])) = ?p"
    by (simp add: pool_exec_append)
  have "mainpc ?p = Waiting" using stall_prefix by simp
  then have "Download stall_env (stall_schedule @ rest) (NewAdaptiveDownloader ''u'' ''f'' 0) =
      (None, pworld ?p)"
    unfolding stall_Download run by simp
  then show ?thesis using stall_prefix by simp
qed

end
